theory Spec2Isabelle
  imports Complex_Main "HOL-Library.Sublist" "HOL-Library.Multiset"
begin

section \<open>Strings as the ranking code uses them\<close>

text \<open>
  The JavaScript of \<^verbatim>\<open>src/deckflix/src/app.js\<close> works on strings. They are modelled as
  \<^typ>\<open>string\<close>, one \<^typ>\<open>char\<close> per code unit, and case mapping and white space are
  those of ASCII: a character outside \<^verbatim>\<open>A\<close>..\<^verbatim>\<open>Z\<close> is its own lower case, and
  white space is TAB, LF, VT, FF, CR and the space.
\<close>

definition lowerChar :: "char \<Rightarrow> char" where
  "lowerChar c =
     (let n = (of_char c :: nat) in if 65 \<le> n \<and> n \<le> 90 then char_of (n + 32) else c)"

definition toLowerCase :: "string \<Rightarrow> string" where
  "toLowerCase s = map lowerChar s"

definition isSpace :: "char \<Rightarrow> bool" where
  "isSpace c = (let n = (of_char c :: nat) in (9 \<le> n \<and> n \<le> 13) \<or> n = 32)"

definition trim :: "string \<Rightarrow> string" where
  "trim s = rev (dropWhile isSpace (rev (dropWhile isSpace s)))"

text \<open>\<^verbatim>\<open>s.startsWith(p)\<close> and \<^verbatim>\<open>s.includes(p)\<close>, the subject first (\<open>includes\<close> is a
  keyword of Isabelle, hence the suffix).\<close>

fun startsWith :: "string \<Rightarrow> string \<Rightarrow> bool" where
  "startsWith s [] = True"
| "startsWith [] (p # ps) = False"
| "startsWith (c # cs) (p # ps) = (c = p \<and> startsWith cs ps)"

fun includesStr :: "string \<Rightarrow> string \<Rightarrow> bool" where
  "includesStr [] p = (p = [])"
| "includesStr (c # cs) p = (startsWith (c # cs) p \<or> includesStr cs p)"

text \<open>
  \<^verbatim>\<open>s.split(/[:\-]/)\<close>: the pieces of \<open>s\<close> between the colons and dashes; a string
  with neither is its own single piece.
\<close>

fun splitColonDash :: "string \<Rightarrow> string list" where
  "splitColonDash [] = [[]]"
| "splitColonDash (c # cs) =
     (if c = CHR '':'' \<or> c = CHR ''-'' then [] # splitColonDash cs
      else (case splitColonDash cs of
              [] \<Rightarrow> [[c]]
            | p # ps \<Rightarrow> (c # p) # ps))"


section \<open>The host: regular expressions and the clock\<close>

text \<open>
  \<^verbatim>\<open>detectFranchiseBoost\<close> hands pattern sources to the engine's \<^verbatim>\<open>new RegExp(src, 'i')\<close>,
  which either throws a SyntaxError or gives an object whose \<^verbatim>\<open>test\<close> decides a
  subject. The ranking functions take that constructor as a field of the host, so
  that what is proved for every host holds for the engine the application runs on.
  The second field is the text the engine prints for the native function
  \<^verbatim>\<open>Object\<close>, which the standard leaves to the implementation.
\<close>

record host =
  RegExp :: "string \<Rightarrow> (string \<Rightarrow> bool) option"
  ObjectText :: string

text \<open>
  \<^verbatim>\<open>new Date()\<close> reads the clock; \<^verbatim>\<open>getFullYear\<close> is one component of what it
  returns.
\<close>

record date =
  fullYear :: int
  month :: nat
  dayOfMonth :: nat
  timeOfDay :: nat

definition getFullYear :: "date \<Rightarrow> int" where
  "getFullYear d = fullYear d"

datatype error = SyntaxError


subsection \<open>A regular-expression engine for the patterns the code builds\<close>

text \<open>
  The concrete host used where a theorem evaluates the code on given strings. It
  reads pattern sources made of literal characters, \<^verbatim>\<open>.\<close>, the postfix \<^verbatim>\<open>*\<close> and
  \<^verbatim>\<open>+\<close>, groups and \<^verbatim>\<open>|\<close>, and matches without regard to case, as the flag
  \<^verbatim>\<open>i\<close> asks. A quantifier with nothing to repeat, an unmatched \<^verbatim>\<open>)\<close> and an
  unterminated group are rejected as JavaScript rejects them. A source that uses
  any other special character (a backslash, \<^verbatim>\<open>^\<close>, \<^verbatim>\<open>$\<close>, \<^verbatim>\<open>?\<close>, a bracket or a
  brace) is outside what this engine reads and is answered with \<open>None\<close> too.
\<close>

datatype rx = Nul | Eps | Chr char | Dot | Seq rx rx | Alt rx rx | Star rx | Plus rx

text \<open>
  A frame of the parser: the alternatives of the group that are complete, and the
  atoms of the alternative being read, the last one first; an atom is marked once
  it carries a quantifier.
\<close>

type_synonym frame = "rx list \<times> (rx \<times> bool) list"

definition seqOf :: "rx list \<Rightarrow> rx" where
  "seqOf rs = foldr Seq rs Eps"

fun altOf :: "rx list \<Rightarrow> rx" where
  "altOf [] = Nul"
| "altOf [r] = r"
| "altOf (r # rs) = Alt r (altOf rs)"

definition closeFrame :: "frame \<Rightarrow> rx" where
  "closeFrame f = altOf (fst f @ [seqOf (rev (map fst (snd f)))])"

definition pushAtom :: "rx \<Rightarrow> frame \<Rightarrow> frame" where
  "pushAtom r f = (fst f, (r, False) # snd f)"

definition newAlternative :: "frame \<Rightarrow> frame" where
  "newAlternative f = (fst f @ [seqOf (rev (map fst (snd f)))], [])"

definition quantify :: "(rx \<Rightarrow> rx) \<Rightarrow> frame \<Rightarrow> frame option" where
  "quantify q f =
     (case snd f of
        [] \<Rightarrow> None
      | (r, quantified) # as \<Rightarrow> if quantified then None else Some (fst f, (q r, True) # as))"

definition unreadSpecials :: "char list" where
  "unreadSpecials = CHR 0x5C # ''^$?[]{}''"

fun parseRx :: "frame list \<Rightarrow> string \<Rightarrow> rx option" where
  "parseRx st [] = (case st of [f] \<Rightarrow> Some (closeFrame f) | _ \<Rightarrow> None)"
| "parseRx st (c # cs) =
     (case st of
        [] \<Rightarrow> None
      | f # fs \<Rightarrow>
          if c = CHR ''('' then parseRx (([], []) # f # fs) cs
          else if c = CHR '')'' then
            (case fs of [] \<Rightarrow> None | g # gs \<Rightarrow> parseRx (pushAtom (closeFrame f) g # gs) cs)
          else if c = CHR ''|'' then parseRx (newAlternative f # fs) cs
          else if c = CHR ''*'' then
            (case quantify Star f of None \<Rightarrow> None | Some f' \<Rightarrow> parseRx (f' # fs) cs)
          else if c = CHR ''+'' then
            (case quantify Plus f of None \<Rightarrow> None | Some f' \<Rightarrow> parseRx (f' # fs) cs)
          else if c = CHR ''.'' then parseRx (pushAtom Dot f # fs) cs
          else if c \<in> set unreadSpecials then None
          else parseRx (pushAtom (Chr c) f # fs) cs)"

text \<open>Matching by derivatives; \<^verbatim>\<open>.\<close> matches any character but a line terminator.\<close>

fun nullable :: "rx \<Rightarrow> bool" where
  "nullable Nul = False"
| "nullable Eps = True"
| "nullable (Chr c) = False"
| "nullable Dot = False"
| "nullable (Seq r s) = (nullable r \<and> nullable s)"
| "nullable (Alt r s) = (nullable r \<or> nullable s)"
| "nullable (Star r) = True"
| "nullable (Plus r) = nullable r"

fun seq :: "rx \<Rightarrow> rx \<Rightarrow> rx" where
  "seq Nul s = Nul"
| "seq Eps s = s"
| "seq r s = Seq r s"

fun alt :: "rx \<Rightarrow> rx \<Rightarrow> rx" where
  "alt Nul s = s"
| "alt r s = Alt r s"

fun deriv :: "char \<Rightarrow> rx \<Rightarrow> rx" where
  "deriv c Nul = Nul"
| "deriv c Eps = Nul"
| "deriv c (Chr d) = (if lowerChar c = lowerChar d then Eps else Nul)"
| "deriv c Dot = (if c = CHR 0x0A \<or> c = CHR 0x0D then Nul else Eps)"
| "deriv c (Seq r s) =
     (if nullable r then alt (seq (deriv c r) s) (deriv c s) else seq (deriv c r) s)"
| "deriv c (Alt r s) = alt (deriv c r) (deriv c s)"
| "deriv c (Star r) = seq (deriv c r) (Star r)"
| "deriv c (Plus r) = seq (deriv c r) (Star r)"

fun matchesPrefix :: "rx \<Rightarrow> string \<Rightarrow> bool" where
  "matchesPrefix r [] = nullable r"
| "matchesPrefix r (c # cs) = (nullable r \<or> matchesPrefix (deriv c r) cs)"

text \<open>\<^verbatim>\<open>test\<close> without the sticky flag: a match may start at any position.\<close>

fun testRx :: "rx \<Rightarrow> string \<Rightarrow> bool" where
  "testRx r [] = nullable r"
| "testRx r (c # cs) = (matchesPrefix r (c # cs) \<or> testRx r cs)"

definition jsRegExp :: "string \<Rightarrow> (string \<Rightarrow> bool) option" where
  "jsRegExp src = map_option testRx (parseRx [([], [])] src)"

definition jsHost :: host where
  "jsHost = \<lparr> RegExp = jsRegExp, ObjectText = ''function Object() { [native code] }'' \<rparr>"


section \<open>The ranking engine of \<^verbatim>\<open>app.js\<close>\<close>

subsection \<open>Catalog items and scored results\<close>

text \<open>
  A raw result as the backend serialises it. The ranking code reads five of its
  properties. \<open>year\<close> and \<open>imdb_rating\<close> hold what \<^verbatim>\<open>parseInt\<close> and \<^verbatim>\<open>parseFloat\<close>
  read from the property, \<open>None\<close> standing for NaN (the property is absent or does
  not start with a number). Ratings, secondary scores and averages are rational
  numbers where the code has doubles; the rounding of a sum of doubles is not
  modelled. \<open>ident\<close> is the property \<^verbatim>\<open>id\<close>.
\<close>

record movie =
  ident :: string
  name :: "string option"
  title :: "string option"
  year :: "int option"
  imdb_rating :: "rat option"
  content_type :: "string option"

text \<open>
  \<^verbatim>\<open>{...movie, relevanceScore, secondaryScore, originalIndex: index}\<close>: the copied item
  and the three properties the ranking adds.
\<close>

record search_result =
  item :: movie
  relevanceScore :: int
  secondaryScore :: rat
  originalIndex :: nat

text \<open>\<^verbatim>\<open>movie.name || movie.title || ''\<close>: an absent or empty string is falsy.\<close>

definition nameOrTitle :: "movie \<Rightarrow> string" where
  "nameOrTitle m =
     (case name m of
        Some n \<Rightarrow> if n \<noteq> [] then n else (case title m of Some t \<Rightarrow> t | None \<Rightarrow> [])
      | None \<Rightarrow> (case title m of Some t \<Rightarrow> t | None \<Rightarrow> []))"


subsection \<open>\<^verbatim>\<open>preprocessSearchTerm\<close>\<close>

text \<open>
  The value of a search term. \<^verbatim>\<open>pluralMap\<close> is an object literal, so besides its
  four own keys the lookup \<^verbatim>\<open>pluralMap[processed]\<close> finds the two lower-case
  properties every object inherits: \<^verbatim>\<open>constructor\<close> (the function \<^verbatim>\<open>Object\<close>) and
  \<^verbatim>\<open>__proto__\<close> (\<^verbatim>\<open>Object.prototype\<close>). Both are truthy and are returned as the
  processed term; string methods and template literals then use their text.
\<close>

datatype jsterm = Str string | ObjectCtor | ObjectProto

definition termText :: "host \<Rightarrow> jsterm \<Rightarrow> string" where
  "termText h t =
     (case t of Str s \<Rightarrow> s | ObjectCtor \<Rightarrow> ObjectText h | ObjectProto \<Rightarrow> ''[object Object]'')"

text \<open>\<^verbatim>\<open>filter(Boolean)\<close> keeps every term but the empty string.\<close>

definition truthy :: "jsterm \<Rightarrow> bool" where
  "truthy t = (t \<noteq> Str [])"

definition pluralMap :: "string \<Rightarrow> jsterm option" where
  "pluralMap k =
     (if k = ''cars'' then Some (Str ''car'')
      else if k = ''movies'' then Some (Str ''movie'')
      else if k = ''shows'' then Some (Str ''show'')
      else if k = ''series'' then Some (Str ''series'')
      else if k = ''constructor'' then Some ObjectCtor
      else if k = ''__proto__'' then Some ObjectProto
      else None)"

text \<open>
  \<^verbatim>\<open>processed.replace(/^(the|a|an)\s+/i, '')\<close>: the first of the three articles, in
  this order, that starts the string and is followed by white space is removed
  together with all the white space after it.
\<close>

fun stripArticle :: "string list \<Rightarrow> string \<Rightarrow> string" where
  "stripArticle [] s = s"
| "stripArticle (a # as) s =
     (if startsWith s a \<and> (case drop (length a) s of [] \<Rightarrow> False | c # cs \<Rightarrow> isSpace c)
      then dropWhile isSpace (drop (length a) s)
      else stripArticle as s)"

definition preprocessSearchTerm :: "string \<Rightarrow> jsterm" where
  "preprocessSearchTerm searchTerm =
     (if searchTerm = [] then Str []
      else
        let processed = trim (toLowerCase searchTerm);
            processed = stripArticle [''the'', ''a'', ''an''] processed
        in (case pluralMap processed of Some t \<Rightarrow> t | None \<Rightarrow> Str processed))"


subsection \<open>\<^verbatim>\<open>calculateRelevanceScore\<close> and \<^verbatim>\<open>detectFranchiseBoost\<close>\<close>

text \<open>
  One pass of the loop over the search terms: the chain of tests, each of which
  ends in \<^verbatim>\<open>score = Math.max(score, k); continue\<close>. \<open>matchTier\<close> is the \<open>k\<close> of the
  first test that holds.
\<close>

definition matchTier :: "host \<Rightarrow> string \<Rightarrow> jsterm \<Rightarrow> int option" where
  "matchTier h t term =
     (let s = termText h term in
      if term = Str t then Some 100
      else if startsWith t s then Some 90
      else if startsWith t (''the '' @ s) then Some 90
      else if startsWith t (s @ '' '') then Some 85
      else if includesStr t ('' '' @ s @ '' '') then Some 80
      else if includesStr t s then Some 70
      else None)"

definition scoreTerm :: "host \<Rightarrow> string \<Rightarrow> int \<Rightarrow> jsterm \<Rightarrow> int" where
  "scoreTerm h t score term =
     (case matchTier h t term of Some k \<Rightarrow> max score k | None \<Rightarrow> score)"

definition movieTitle :: "movie \<Rightarrow> string" where
  "movieTitle m = trim (toLowerCase (nameOrTitle m))"

definition searchTerms :: "string \<Rightarrow> jsterm list" where
  "searchTerms searchTerm =
     filter truthy [Str (trim (toLowerCase searchTerm)), preprocessSearchTerm searchTerm]"

text \<open>The value of \<^verbatim>\<open>score\<close> when the loop is left, before the franchise boost.\<close>

definition baseScore :: "host \<Rightarrow> movie \<Rightarrow> string \<Rightarrow> int" where
  "baseScore h m searchTerm = foldl (scoreTerm h (movieTitle m)) 0 (searchTerms searchTerm)"

text \<open>
  The five pattern sources. They are written as template literals, in which a
  backslash before \<^verbatim>\<open>s\<close> or \<^verbatim>\<open>d\<close> is dropped: the source
  \<^verbatim>\<open>`${searchLower}\s+\d+`\<close> has the text \<^verbatim>\<open>searchLower\<close> followed by \<^verbatim>\<open>s+d+\<close>, and
  so on for the others. The search term is inserted as it is, special characters
  included.
\<close>

definition sequelPatternSources :: "string \<Rightarrow> string list" where
  "sequelPatternSources searchLower =
     [searchLower @ ''s+d+'',
      searchLower @ ''s+ii+'',
      searchLower @ ''s*:s*'',
      searchLower @ ''s*-s*'',
      searchLower @ ''.*s+(film|movie)'']"

text \<open>
  All five objects are built before the first test, so one rejected source makes
  the function throw.
\<close>

definition detectFranchiseBoost :: "host \<Rightarrow> string \<Rightarrow> string \<Rightarrow> error + int" where
  "detectFranchiseBoost h t searchTerm =
     (let searchLower = toLowerCase searchTerm;
          titleLower = toLowerCase t
      in (case those (map (RegExp h) (sequelPatternSources searchLower)) of
            None \<Rightarrow> Inl SyntaxError
          | Some sequelPatterns \<Rightarrow>
              Inr (if list_ex (\<lambda>pattern. pattern titleLower) sequelPatterns then 15 else 0)))"

definition calculateRelevanceScore :: "host \<Rightarrow> movie \<Rightarrow> string \<Rightarrow> error + int" where
  "calculateRelevanceScore h m searchTerm =
     (let score = baseScore h m searchTerm in
      case detectFranchiseBoost h (movieTitle m) (trim (toLowerCase searchTerm)) of
        Inl e \<Rightarrow> Inl e
      | Inr franchiseBoost \<Rightarrow> Inr (if franchiseBoost > 0 then score + franchiseBoost else score))"


subsection \<open>\<^verbatim>\<open>getSecondaryScore\<close>\<close>

definition getSecondaryScore :: "date \<Rightarrow> movie \<Rightarrow> rat" where
  "getSecondaryScore now m =
     (let y = (case year m of None \<Rightarrow> 0 | Some v \<Rightarrow> v);
          yearScore = (if y > 0 then max 0 (20 - of_int (getFullYear now - y) * (1 / 2)) else 0);
          rating = (case imdb_rating m of None \<Rightarrow> 0 | Some v \<Rightarrow> v);
          ratingScore = (if rating > 0 then rating else 0);
          typeScore = (if content_type m = Some ''movie'' then 2
                       else if content_type m = Some ''series'' then 1
                       else if content_type m = Some ''anime'' then 1
                       else 0)
      in yearScore + ratingScore + typeScore)"


subsection \<open>Sorting with a comparator\<close>

text \<open>
  \<^verbatim>\<open>Array.prototype.sort\<close> with a comparator is stable, and the three comparators
  of the ranking code are consistent, so its result is the one stable insertion
  gives: an element goes in front of the first element it does not have to follow.
\<close>

fun insertSorted :: "('a \<Rightarrow> 'a \<Rightarrow> rat) \<Rightarrow> 'a \<Rightarrow> 'a list \<Rightarrow> 'a list" where
  "insertSorted cmp x [] = [x]"
| "insertSorted cmp x (y # ys) =
     (if cmp x y \<le> 0 then x # y # ys else y # insertSorted cmp x ys)"

definition sortWith :: "('a \<Rightarrow> 'a \<Rightarrow> rat) \<Rightarrow> 'a list \<Rightarrow> 'a list" where
  "sortWith cmp xs = foldr (insertSorted cmp) xs []"


subsection \<open>\<^verbatim>\<open>groupFranchiseResults\<close>\<close>

definition franchiseKey :: "string \<Rightarrow> search_result \<Rightarrow> string option" where
  "franchiseKey searchLower result =
     (let titleLower = toLowerCase (nameOrTitle (item result)) in
      if startsWith titleLower searchLower then Some searchLower
      else if includesStr titleLower searchLower then
        (case splitColonDash titleLower of
           p # q # ps \<Rightarrow> if includesStr p searchLower then Some (trim p) else None
         | _ \<Rightarrow> None)
      else None)"

text \<open>
  \<^verbatim>\<open>groups\<close> is a \<^verbatim>\<open>Map\<close>: it keeps its keys in the order of their first insertion,
  and a result is pushed at the end of its key's array.
\<close>

fun pushToGroup ::
  "string \<Rightarrow> search_result \<Rightarrow> (string \<times> search_result list) list
     \<Rightarrow> (string \<times> search_result list) list" where
  "pushToGroup k r [] = [(k, [r])]"
| "pushToGroup k r ((k', rs) # gs) =
     (if k' = k then (k', rs @ [r]) # gs else (k', rs) # pushToGroup k r gs)"

text \<open>The body of \<^verbatim>\<open>results.forEach\<close>; \<^verbatim>\<open>if (franchiseKey)\<close> is false for the empty key.\<close>

definition distribute ::
  "string \<Rightarrow> (string \<times> search_result list) list \<times> search_result list \<Rightarrow> search_result
     \<Rightarrow> (string \<times> search_result list) list \<times> search_result list" where
  "distribute searchLower st result =
     (case franchiseKey searchLower result of
        Some k \<Rightarrow> if k \<noteq> [] then (pushToGroup k result (fst st), snd st)
                  else (fst st, snd st @ [result])
      | None \<Rightarrow> (fst st, snd st @ [result]))"

definition avgScore :: "string \<times> search_result list \<Rightarrow> rat" where
  "avgScore g = of_int (sum_list (map relevanceScore (snd g))) / of_nat (length (snd g))"

definition yearOrLast :: "search_result \<Rightarrow> int" where
  "yearOrLast r = (case year (item r) of None \<Rightarrow> 9999 | Some y \<Rightarrow> if y = 0 then 9999 else y)"

definition groupFranchiseResults :: "search_result list \<Rightarrow> string \<Rightarrow> search_result list" where
  "groupFranchiseResults results searchTerm =
     (let searchLower = toLowerCase searchTerm;
          st = foldl (distribute searchLower) ([], []) results;
          sortedGroups = sortWith (\<lambda>a b. avgScore b - avgScore a) (fst st)
      in concat (map (\<lambda>g. sortWith (\<lambda>a b. of_int (yearOrLast a - yearOrLast b)) (snd g))
                     sortedGroups)
         @ snd st)"


subsection \<open>\<^verbatim>\<open>processSearchResults\<close>\<close>

definition scoreResult :: "host \<Rightarrow> date \<Rightarrow> string \<Rightarrow> nat \<times> movie \<Rightarrow> error + search_result" where
  "scoreResult h now searchTerm im =
     (case calculateRelevanceScore h (snd im) searchTerm of
        Inl e \<Rightarrow> Inl e
      | Inr relevance \<Rightarrow>
          Inr \<lparr> item = snd im, relevanceScore = relevance,
                secondaryScore = getSecondaryScore now (snd im), originalIndex = fst im \<rparr>)"

text \<open>\<^verbatim>\<open>results.map\<close>, left at the first callback that throws.\<close>

fun collect :: "(error + 'a) list \<Rightarrow> error + 'a list" where
  "collect [] = Inr []"
| "collect (Inl e # xs) = Inl e"
| "collect (Inr x # xs) = (case collect xs of Inl e \<Rightarrow> Inl e | Inr ys \<Rightarrow> Inr (x # ys))"

definition scoredResults :: "host \<Rightarrow> date \<Rightarrow> movie list \<Rightarrow> string \<Rightarrow> error + search_result list" where
  "scoredResults h now results searchTerm =
     collect (map (scoreResult h now searchTerm) (enumerate 0 results))"

definition compareResults :: "search_result \<Rightarrow> search_result \<Rightarrow> rat" where
  "compareResults a b =
     (if relevanceScore b \<noteq> relevanceScore a then of_int (relevanceScore b - relevanceScore a)
      else if secondaryScore b \<noteq> secondaryScore a then secondaryScore b - secondaryScore a
      else of_int (int (originalIndex a) - int (originalIndex b)))"

text \<open>\<^verbatim>\<open>filteredResults\<close> after its \<^verbatim>\<open>sort\<close>: what is handed to \<^verbatim>\<open>groupFranchiseResults\<close>.\<close>

definition filteredResults :: "search_result list \<Rightarrow> search_result list" where
  "filteredResults scored = sortWith compareResults (filter (\<lambda>result. relevanceScore result \<ge> 10) scored)"

definition processSearchResults ::
  "host \<Rightarrow> date \<Rightarrow> movie list \<Rightarrow> string \<Rightarrow> error + search_result list" where
  "processSearchResults h now results searchTerm =
     (if results = [] then Inr []
      else (case scoredResults h now results searchTerm of
              Inl e \<Rightarrow> Inl e
            | Inr scored \<Rightarrow> Inr (groupFranchiseResults (filteredResults scored) searchTerm)))"


subsection \<open>The order the ranking is meant to give\<close>



text \<open>The results of a list that \<^verbatim>\<open>groupFranchiseResults\<close> files under the key \<open>k\<close>.\<close>

definition keyedBy :: "string \<Rightarrow> string \<Rightarrow> search_result \<Rightarrow> bool" where
  "keyedBy searchLower k r = (franchiseKey searchLower r = Some k)"


subsection \<open>Example data\<close>

text \<open>A movie with a name and a year and no rating, and a reading of the clock.\<close>

definition catalogItem :: "string \<Rightarrow> int \<Rightarrow> movie" where
  "catalogItem n y =
     \<lparr> ident = n, name = Some n, title = None, year = Some y, imdb_rating = None,
       content_type = Some ''movie'' \<rparr>"

definition clock2026 :: date where
  "clock2026 = \<lparr> fullYear = 2026, month = 11, dayOfMonth = 3, timeOfDay = 0 \<rparr>"


section \<open>The stream resolver and the playback launcher\<close>

text \<open>
  The backend is Rust. Of it the repository holds the fragments quoted in
  \<^verbatim>\<open>src/VIDEO_PLAYBACK_FIXES_SUMMARY.md\<close> and in the development notes. A Rust
  \<^verbatim>\<open>String\<close> is modelled as a \<^typ>\<open>string\<close> of its bytes, \<^verbatim>\<open>to_lowercase\<close> as
  \<^const>\<open>toLowerCase\<close>, and \<^verbatim>\<open>Result<T, String>\<close> as \<^typ>\<open>string + 'a\<close> with the error
  message on the left.
\<close>

subsection \<open>\<^verbatim>\<open>extract_torrent_hash\<close>\<close>

text \<open>\<^verbatim>\<open>s.find(p)\<close>: the index of the first occurrence of a string, or of a character.\<close>

fun findStr :: "string \<Rightarrow> string \<Rightarrow> nat option" where
  "findStr [] p = (if p = [] then Some 0 else None)"
| "findStr (c # cs) p = (if startsWith (c # cs) p then Some 0 else map_option Suc (findStr cs p))"

fun findChar :: "string \<Rightarrow> char \<Rightarrow> nat option" where
  "findChar [] d = None"
| "findChar (c # cs) d = (if c = d then Some 0 else map_option Suc (findChar cs d))"

text \<open>
  The function as the summary quotes it. The quotation ends with the \<^verbatim>\<open>if let\<close>; the
  branch for a link without the marker is taken from the testing checklist, which
  expects the error \<^verbatim>\<open>Could not find btih: in magnet link\<close>.
\<close>

definition extract_torrent_hash :: "string \<Rightarrow> string + string" where
  "extract_torrent_hash magnet_link =
     (case findStr magnet_link ''btih:'' of
        Some start \<Rightarrow>
          let hash_start = start + 5;
              hash_end = (case findChar (drop hash_start magnet_link) CHR ''&'' of
                            Some pos \<Rightarrow> hash_start + pos
                          | None \<Rightarrow> length magnet_link)
          in Inr (toLowerCase (take (hash_end - hash_start) (drop hash_start magnet_link)))
      | None \<Rightarrow> Inl ''Could not find btih: in magnet link'')"


subsection \<open>The swarm helper: \<^verbatim>\<open>start_stream\<close> and \<^verbatim>\<open>stop_stream\<close>\<close>

text \<open>
  The streamer owns the handle of the helper process it spawned last
  (\<^verbatim>\<open>peerflix_process\<close>). Beside it the state records what the handle stands for: the
  helper processes that are alive, the identifier the next spawned process gets, and
  the kills and spawns so far, in order. Calls are serialised by the lock the command
  takes on the streamer, so they are modelled one after the other.
\<close>

datatype helper_event = Killed nat | Spawned nat

record streamer =
  peerflix_process :: "nat option"
  running :: "nat set"
  next_pid :: nat
  events :: "helper_event list"

definition initial_streamer :: streamer where
  "initial_streamer = \<lparr> peerflix_process = None, running = {}, next_pid = 0, events = [] \<rparr>"

text \<open>
  Modelled from the spec: the body of \<^verbatim>\<open>stop_stream\<close> is not in the repository's
  sources, only its signature and its call from \<^verbatim>\<open>start_stream\<close>. It terminates the
  helper process of the prior session, if there is one, and gives up the handle.
  \<open>kill_ok\<close> is whether the system lets the process be killed; when it does not, the
  call fails and nothing changes.
\<close>

definition stop_stream :: "bool \<Rightarrow> streamer \<Rightarrow> (string + unit) \<times> streamer" where
  "stop_stream kill_ok s =
     (case peerflix_process s of
        None \<Rightarrow> (Inr (), s)
      | Some child \<Rightarrow>
          if kill_ok
          then (Inr (), s\<lparr> peerflix_process := None, running := running s - {child},
                            events := events s @ [Killed child] \<rparr>)
          else (Inl ''Failed to stop stream'', s))"

text \<open>
  \<^verbatim>\<open>start_stream\<close> as quoted: stop the existing stream, spawn the helper on port 8888,
  store the handle, wait, and return the local URL. Each \<^verbatim>\<open>?\<close> returns the error.
  \<open>spawn_ok\<close> is whether the helper's binary can be spawned.
\<close>

definition start_stream ::
  "bool \<Rightarrow> bool \<Rightarrow> string \<Rightarrow> streamer \<Rightarrow> (string + string) \<times> streamer" where
  "start_stream kill_ok spawn_ok magnet_link s =
     (case stop_stream kill_ok s of
        (Inl e, s1) \<Rightarrow> (Inl e, s1)
      | (Inr u, s1) \<Rightarrow>
          if spawn_ok
          then (Inr ''http://127.0.0.1:8888'',
                s1\<lparr> peerflix_process := Some (next_pid s1),
                    running := insert (next_pid s1) (running s1),
                    next_pid := Suc (next_pid s1),
                    events := events s1 @ [Spawned (next_pid s1)] \<rparr>)
          else (Inl ''Failed to start peerflix'', s1))"

text \<open>A helper process may also end by itself; the streamer keeps its handle.\<close>

definition helper_exits :: "nat \<Rightarrow> streamer \<Rightarrow> streamer" where
  "helper_exits p s = s\<lparr> running := running s - {p} \<rparr>"

text \<open>The states the streamer can be in: any sequence of calls and process exits.\<close>

inductive reachable :: "streamer \<Rightarrow> bool" where
  init: "reachable initial_streamer"
| start: "reachable s \<Longrightarrow> reachable (snd (start_stream kill_ok spawn_ok magnet_link s))"
| stop: "reachable s \<Longrightarrow> reachable (snd (stop_stream kill_ok s))"
| exits: "reachable s \<Longrightarrow> reachable (helper_exits p s)"

text \<open>Every live helper is the one the handle names, and the handle is an identifier already given out.\<close>

definition tracked :: "streamer \<Rightarrow> bool" where
  "tracked s =
     (running s \<subseteq> set_option (peerflix_process s)
      \<and> (\<forall>child\<in>set_option (peerflix_process s). child < next_pid s))"


subsection \<open>\<^verbatim>\<open>find_video_file_in_hash_dir\<close> and the resolution of a descriptor\<close>

record dir_entry =
  entry_path :: string
  is_file :: bool

text \<open>
  \<^verbatim>\<open>Path::extension\<close>: what follows the last dot of the file name, if the name has a
  dot that is not its first character only.
\<close>

definition file_name :: "string \<Rightarrow> string" where
  "file_name p = rev (takeWhile (\<lambda>c. c \<noteq> CHR ''/'') (rev p))"

definition extension :: "string \<Rightarrow> string option" where
  "extension p =
     (let fname = file_name p;
          ext_rev = takeWhile (\<lambda>c. c \<noteq> CHR ''.'') (rev fname)
      in if CHR ''.'' \<notin> set fname then None
         else if drop (Suc (length ext_rev)) (rev fname) = [] then None
         else Some (rev ext_rev))"

definition video_extensions :: "string list" where
  "video_extensions = [''mp4'', ''mkv'', ''avi'', ''mov'', ''wmv'', ''flv'', ''webm'', ''m4v'']"

text \<open>
  The test inside the loop over \<^verbatim>\<open>read_dir\<close>: the entry could be read, is a file, has
  an extension, and the extension in lower case is in the list.
\<close>

definition is_video_file :: "dir_entry option \<Rightarrow> bool" where
  "is_video_file entry =
     (case entry of
        None \<Rightarrow> False
      | Some e \<Rightarrow>
          is_file e \<and>
          (case extension (entry_path e) of
             None \<Rightarrow> False
           | Some ext \<Rightarrow> toLowerCase ext \<in> set video_extensions))"

text \<open>
  The search as quoted; its argument is what \<^verbatim>\<open>read_dir\<close> gives for the hash
  directory, \<open>None\<close> when the directory cannot be read. The quotation ends with the
  loop; that the function fails when the loop finds nothing is what its caller's
  \<^verbatim>\<open>Err(e)\<close> arm and the summary's list of edge cases say.
\<close>

definition find_video_file_in_hash_dir :: "dir_entry option list option \<Rightarrow> string + string" where
  "find_video_file_in_hash_dir listing =
     (case listing of
        None \<Rightarrow> Inl ''Could not read hash directory''
      | Some entries \<Rightarrow>
          (case find is_video_file entries of
             Some (Some e) \<Rightarrow> Inr (entry_path e)
           | _ \<Rightarrow> Inl ''No video file found in hash directory''))"

definition has_video_file :: "dir_entry option list option \<Rightarrow> bool" where
  "has_video_file listing =
     (case listing of None \<Rightarrow> False | Some entries \<Rightarrow> list_ex is_video_file entries)"

text \<open>
  Modelled from the spec: the loop that polls the hash directory is not in the
  repository's sources. The directory is searched at a fixed interval, at most a fixed
  number of times; \<open>dir_at k\<close> is its content at the \<open>k\<close>-th search.
\<close>

fun poll_hash_dir :: "(nat \<Rightarrow> dir_entry option list option) \<Rightarrow> nat \<Rightarrow> nat \<Rightarrow> string option" where
  "poll_hash_dir dir_at 0 k = None"
| "poll_hash_dir dir_at (Suc n) k =
     (case find_video_file_in_hash_dir (dir_at k) of
        Inr p \<Rightarrow> Some p
      | Inl e \<Rightarrow> poll_hash_dir dir_at n (Suc k))"

datatype descriptor = Direct string | Swarm string

datatype media_kind = LocalFile string | RemoteEndpoint string

record resolved_media =
  kind :: media_kind
  degraded :: bool

text \<open>
  What a resolution meets outside the program: whether the prior helper can be killed
  and the new one spawned, the number of searches of the bounded wait, and the content
  of the directory named by a hash at each search.
\<close>

record resolver_env =
  can_kill :: bool
  can_spawn :: bool
  max_attempts :: nat
  hash_dir :: "string \<Rightarrow> nat \<Rightarrow> dir_entry option list option"

text \<open>
  Modelled from the spec: the body of \<^verbatim>\<open>play_video_external\<close> that resolves a
  descriptor is not in the repository's sources, only the arm quoted in the summary
  that answers a failed search with \<^verbatim>\<open>Ok(local_url)\<close>. A direct descriptor is its own
  target. For a swarm descriptor the hash is extracted, the helper is started after
  the prior one is stopped, and the hash directory is polled: the first video file
  found is the target; when the wait ends without one, the target is the helper's own
  endpoint and the result is degraded.
\<close>

definition resolve ::
  "resolver_env \<Rightarrow> descriptor \<Rightarrow> streamer \<Rightarrow> (string + resolved_media) \<times> streamer" where
  "resolve env d s =
     (case d of
        Direct url \<Rightarrow> (Inr \<lparr> kind = RemoteEndpoint url, degraded = False \<rparr>, s)
      | Swarm magnet_link \<Rightarrow>
          (case extract_torrent_hash magnet_link of
             Inl e \<Rightarrow> (Inl e, s)
           | Inr hash \<Rightarrow>
               (case start_stream (can_kill env) (can_spawn env) magnet_link s of
                  (Inl e, s') \<Rightarrow> (Inl e, s')
                | (Inr local_url, s') \<Rightarrow>
                    (case poll_hash_dir (hash_dir env hash) (max_attempts env) 0 of
                       Some p \<Rightarrow> (Inr \<lparr> kind = LocalFile p, degraded = False \<rparr>, s')
                     | None \<Rightarrow>
                         (Inr \<lparr> kind = RemoteEndpoint local_url, degraded = True \<rparr>, s')))))"


subsection \<open>\<^verbatim>\<open>launch_external_player\<close>\<close>

text \<open>
  A candidate pairs a binary with its arguments. The summary quotes the head of the
  list: \<^verbatim>\<open>mpv\<close>, then \<^verbatim>\<open>vlc\<close>, then the packaged variants, whose arguments it leaves
  out; the launcher below takes the list it is to try.
\<close>

record player =
  binary :: string
  arguments :: "string list"

definition native_players :: "string \<Rightarrow> string \<Rightarrow> player list" where
  "native_players media_title video_path =
     [\<lparr> binary = ''mpv'',
        arguments = [''--force-media-title'', media_title, ''--fullscreen'', video_path] \<rparr>,
      \<lparr> binary = ''vlc'',
        arguments = [''--meta-title'', media_title, ''--fullscreen'', ''--play-and-exit'',
                     video_path] \<rparr>]"

text \<open>
  The error of the exhausted list, as quoted: the headline and one line of advice for
  each platform, each after a line feed and a bullet (the three bytes of U+2022).
\<close>

definition bullet_line :: "string \<Rightarrow> string" where
  "bullet_line t = [CHR 0x0A, CHR 0xE2, CHR 0x80, CHR 0xA2] @ '' '' @ t"

definition no_player_message :: string where
  "no_player_message =
     ''No video player found. Please install MPV or VLC:''
     @ bullet_line ''Windows: mpv.io or videolan.org''
     @ bullet_line (''Steam Deck: '' @ [CHR 0x27] @ ''sudo pacman -S mpv'' @ [CHR 0x27]
                    @ '' or Discover app'')
     @ bullet_line (''Linux: '' @ [CHR 0x27] @ ''sudo apt install mpv'' @ [CHR 0x27] @ '' or ''
                    @ [CHR 0x27] @ ''sudo dnf install mpv'' @ [CHR 0x27])"

text \<open>
  What a launch does to the outside, in order. A launch that waited for a player to
  exit would add \<open>Awaited\<close>.
\<close>

datatype launch_event = SpawnFailed player | SpawnOk player | Awaited player

text \<open>
  Modelled from the spec: the loop of \<^verbatim>\<open>launch_external_player\<close> is not in the
  repository's sources, only its candidate list and its final error (and the loop of
  the command it replaced, in the notes on the backend, which has the same shape). The
  candidates are tried in order; a failed spawn goes on to the next; the first spawn
  that succeeds is returned and is not waited for; the exhausted list is the error.
  \<open>spawn\<close> is whether the system can spawn a candidate.
\<close>

fun launch_external_player ::
  "(player \<Rightarrow> bool) \<Rightarrow> player list \<Rightarrow> (string + player) \<times> launch_event list" where
  "launch_external_player spawn [] = (Inl no_player_message, [])"
| "launch_external_player spawn (p # ps) =
     (if spawn p then (Inr p, [SpawnOk p])
      else (let later = launch_external_player spawn ps
            in (fst later, SpawnFailed p # snd later)))"


section \<open>Properties of the ranking engine\<close>

subsection \<open>The tiers of the base score\<close>

lemma startsWith_append: "startsWith t (s @ u) \<Longrightarrow> startsWith t s"
  by (induction t s rule: startsWith.induct) auto

lemma matchTier_cases:
  "matchTier h t term = None \<or> matchTier h t term = Some 70 \<or> matchTier h t term = Some 80
     \<or> matchTier h t term = Some 90 \<or> matchTier h t term = Some 100"
  by (auto simp: matchTier_def Let_def dest: startsWith_append)

lemma scoreTerm_values:
  "score \<in> {0, 70, 80, 90, 100} \<Longrightarrow> scoreTerm h t score term \<in> {0, 70, 80, 90, 100}"
  using matchTier_cases [of h t "term"] by (auto simp: scoreTerm_def)

lemma foldl_scoreTerm_values:
  "score \<in> {0, 70, 80, 90, 100} \<Longrightarrow> foldl (scoreTerm h t) score terms \<in> {0, 70, 80, 90, 100}"
proof (induction terms arbitrary: score)
  case Nil
  then show ?case by simp
next
  case (Cons a terms)
  have "scoreTerm h t score a \<in> {0, 70, 80, 90, 100}"
    using Cons.prems by (rule scoreTerm_values)
  then show ?case using Cons.IH by simp
qed

text \<open>
  Claim C10. For every item and query the base relevance score, the score before the
  franchise boost, is one of 0, 70, 80, 90 and 100. No term is ever matched at the
  85-point tier: a name that starts with the term followed by a space starts with the
  term, and that test comes first and gives 90.
\<close>

theorem baseScore_tiers:
  "baseScore h m searchTerm \<in> {0, 70, 80, 90, 100}
   \<and> matchTier h t term \<noteq> Some 85
   \<and> (startsWith t (termText h term @ '' '') \<longrightarrow> startsWith t (termText h term))"
  using matchTier_cases [of h t "term"]
    foldl_scoreTerm_values [of 0 h "movieTitle m" "searchTerms searchTerm"]
  by (auto simp: baseScore_def dest: startsWith_append)

theorem baseScore_tiers_witness:
  "startsWith ''cars 2'' (termText jsHost (Str ''cars'') @ '' '')
   \<and> startsWith ''cars 2'' (termText jsHost (Str ''cars''))
   \<and> matchTier jsHost ''cars 2'' (Str ''cars'') = Some 90
   \<and> baseScore jsHost (catalogItem ''Cars 2'' 2011) ''cars'' = 90"
proof -
  have a: "startsWith ''cars 2'' (termText jsHost (Str ''cars'') @ '' '')"
    by (simp add: termText_def)
  have b: "matchTier jsHost ''cars 2'' (Str ''cars'') = Some 90" by code_simp
  have c: "baseScore jsHost (catalogItem ''Cars 2'' 2011) ''cars'' = 90" by code_simp
  have "startsWith ''cars 2'' (termText jsHost (Str ''cars'') @ '' '')
          \<longrightarrow> startsWith ''cars 2'' (termText jsHost (Str ''cars''))"
    using baseScore_tiers [of jsHost "catalogItem ''Cars 2'' 2011" "''cars''"
        "''cars 2''" "Str ''cars''"]
    by (elim conjE)
  then have d: "startsWith ''cars 2'' (termText jsHost (Str ''cars''))"
    using a by (rule mp)
  show ?thesis using a d b c by (intro conjI)
qed


subsection \<open>Sorting with a comparator\<close>

lemma mset_insertSorted: "mset (insertSorted cmp x ys) = add_mset x (mset ys)"
  by (induction ys) auto

lemma mset_sortWith: "mset (sortWith cmp xs) = mset xs"
  by (induction xs) (auto simp: sortWith_def mset_insertSorted)

lemma set_insertSorted: "set (insertSorted cmp x ys) = insert x (set ys)"
  by (induction ys) auto

lemma sorted_insertSorted:
  assumes total: "\<And>a b. cmp a b \<le> 0 \<or> cmp b a \<le> 0"
    and trans: "\<And>a b c. cmp a b \<le> 0 \<Longrightarrow> cmp b c \<le> 0 \<Longrightarrow> cmp a c \<le> 0"
  shows "sorted_wrt (\<lambda>a b. cmp a b \<le> 0) ys
           \<Longrightarrow> sorted_wrt (\<lambda>a b. cmp a b \<le> 0) (insertSorted cmp x ys)"
proof (induction ys)
  case Nil
  then show ?case by simp
next
  case (Cons y ys)
  show ?case
  proof (cases "cmp x y \<le> 0")
    case True
    then show ?thesis using Cons.prems trans by auto
  next
    case False
    then have "cmp y x \<le> 0" using total by blast
    then show ?thesis using False Cons by (auto simp: set_insertSorted)
  qed
qed

lemma sorted_sortWith:
  assumes total: "\<And>a b. cmp a b \<le> 0 \<or> cmp b a \<le> 0"
    and trans: "\<And>a b c. cmp a b \<le> 0 \<Longrightarrow> cmp b c \<le> 0 \<Longrightarrow> cmp a c \<le> 0"
  shows "sorted_wrt (\<lambda>a b. cmp a b \<le> 0) (sortWith cmp xs)"
proof (induction xs)
  case Nil
  then show ?case by (simp add: sortWith_def)
next
  case (Cons x xs)
  have "sortWith cmp (x # xs) = insertSorted cmp x (sortWith cmp xs)"
    by (simp add: sortWith_def)
  then show ?case using sorted_insertSorted [OF total trans Cons.IH] by simp
qed

text \<open>
  Where the comparator compares a key, this is the library's stable sort by that key,
  which is the only sorted rearrangement that keeps equal keys in their order.
\<close>

lemma sortWith_sort_key:
  assumes "\<And>a b. cmp a b \<le> 0 \<longleftrightarrow> f a \<le> f b"
  shows "sortWith cmp xs = sort_key f xs"
proof -
  have "insertSorted cmp x ys = insort_key f x ys" for x ys
    by (induction ys) (simp_all add: assms)
  then show ?thesis by (induction xs) (simp_all add: sortWith_def)
qed

lemma sortWith_year: "sortWith (\<lambda>a b. of_int (yearOrLast a - yearOrLast b)) rs = sort_key yearOrLast rs"
  by (rule sortWith_sort_key) simp

lemma sortWith_avgScore:
  "sortWith (\<lambda>a b. avgScore b - avgScore a) gs = sort_key (\<lambda>g. - avgScore g) gs"
  by (rule sortWith_sort_key) simp






lemma mset_filteredResults:
  "mset (filteredResults scored) = mset (filter (\<lambda>r. 10 \<le> relevanceScore r) scored)"
  by (simp add: filteredResults_def mset_sortWith)


subsection \<open>Grouping rearranges\<close>

lemma mset_pushToGroup:
  "mset (concat (map snd (pushToGroup k r gs))) = add_mset r (mset (concat (map snd gs)))"
  by (induction gs) auto

lemma mset_distribute:
  "mset (concat (map snd (fst (distribute q st r)))) + mset (snd (distribute q st r))
     = add_mset r (mset (concat (map snd (fst st))) + mset (snd st))"
  by (auto simp: distribute_def mset_pushToGroup split: option.splits)

lemma mset_foldl_distribute:
  "mset (concat (map snd (fst (foldl (distribute q) st rs))))
     + mset (snd (foldl (distribute q) st rs))
     = mset (concat (map snd (fst st))) + mset (snd st) + mset rs"
proof (induction rs arbitrary: st)
  case Nil
  then show ?case by simp
next
  case (Cons r rs)
  show ?case
    using Cons.IH [of "distribute q st r"] mset_distribute [of q st r] by simp
qed

lemma mset_concat_sorted_groups:
  "mset (concat (map (\<lambda>g. sortWith c2 (snd g)) (sortWith c1 gs))) = mset (concat (map snd gs))"
proof -
  have "mset (concat (map (\<lambda>g. sortWith c2 (snd g)) (sortWith c1 gs)))
        = sum_mset (image_mset (\<lambda>g. mset (snd g)) (mset (sortWith c1 gs)))"
    by (simp add: mset_concat comp_def mset_sortWith flip: sum_mset_sum_list)
  also have "\<dots> = sum_mset (image_mset (\<lambda>g. mset (snd g)) (mset gs))"
    by (simp add: mset_sortWith)
  also have "\<dots> = mset (concat (map snd gs))"
    by (simp add: mset_concat comp_def flip: sum_mset_sum_list)
  finally show ?thesis .
qed

lemma mset_groupFranchiseResults: "mset (groupFranchiseResults rs q) = mset rs"
proof -
  have "mset (groupFranchiseResults rs q)
        = mset (concat (map snd (fst (foldl (distribute (toLowerCase q)) ([], []) rs))))
          + mset (snd (foldl (distribute (toLowerCase q)) ([], []) rs))"
    by (simp add: groupFranchiseResults_def Let_def mset_concat_sorted_groups)
  also have "\<dots> = mset rs"
    using mset_foldl_distribute [of "toLowerCase q" "([], [])" rs] by simp
  finally show ?thesis .
qed


subsection \<open>What \<^verbatim>\<open>processSearchResults\<close> returns\<close>

lemma collect_Inr: "collect xs = Inr ys \<Longrightarrow> xs = map Inr ys"
proof (induction xs arbitrary: ys rule: collect.induct)
  case 1
  then show ?case by simp
next
  case (2 e xs)
  then show ?case by simp
next
  case (3 x xs)
  then show ?case by (auto split: sum.splits)
qed

lemma collect_map_total:
  "\<forall>x\<in>set xs. \<exists>y. f x = Inr y \<Longrightarrow> \<exists>ys. collect (map f xs) = Inr ys"
proof (induction xs)
  case Nil
  then show ?case by simp
next
  case (Cons x xs)
  then obtain y ys where "f x = Inr y" and "collect (map f xs) = Inr ys" by auto
  then show ?case by simp
qed

lemma scoreResult_Inr:
  "scoreResult h now q (i, m) = Inr r \<Longrightarrow>
     item r = m \<and> calculateRelevanceScore h m q = Inr (relevanceScore r)
     \<and> secondaryScore r = getSecondaryScore now m \<and> originalIndex r = i"
  by (auto simp: scoreResult_def split: sum.splits)

lemma scoredResults_Inr:
  assumes "scoredResults h now results q = Inr scored"
  shows "map item scored = results"
    and "\<forall>r\<in>set scored. calculateRelevanceScore h (item r) q = Inr (relevanceScore r)"
proof -
  have eq: "map (scoreResult h now q) (enumerate 0 results) = map Inr scored"
    using assms by (simp add: scoredResults_def collect_Inr)
  then have len: "length scored = length results"
    by (metis length_enumerate length_map)
  have nth: "scoreResult h now q (i, results ! i) = Inr (scored ! i)" if "i < length results" for i
  proof -
    have "map (scoreResult h now q) (enumerate 0 results) ! i = map Inr scored ! i"
      using eq by simp
    then show ?thesis using that len by (simp add: nth_enumerate_eq)
  qed
  have fields: "item (scored ! i) = results ! i
      \<and> calculateRelevanceScore h (results ! i) q = Inr (relevanceScore (scored ! i))"
    if "i < length results" for i
    using scoreResult_Inr [OF nth [OF that]] by simp
  show "map item scored = results"
    using len fields by (auto intro: nth_equalityI)
  show "\<forall>r\<in>set scored. calculateRelevanceScore h (item r) q = Inr (relevanceScore r)"
    using len fields by (auto simp: in_set_conv_nth)
qed

lemma processSearchResults_Inr:
  assumes "processSearchResults h now results q = Inr out"
  shows "\<exists>scored. scoredResults h now results q = Inr scored
           \<and> out = groupFranchiseResults (filteredResults scored) q"
proof (cases "results = []")
  case True
  then show ?thesis using assms
    by (simp add: processSearchResults_def scoredResults_def groupFranchiseResults_def
        filteredResults_def sortWith_def)
next
  case False
  then show ?thesis using assms
    by (auto simp: processSearchResults_def split: sum.splits)
qed

text \<open>
  When \<^verbatim>\<open>processSearchResults\<close> throws and when it returns: it throws exactly when there
  is a result to score and the engine rejects one of the five pattern sources built
  from the query; for every other input it returns a list.
\<close>

lemma processSearchResults_throws_iff:
  "(\<exists>e. processSearchResults h now results q = Inl e)
     \<longleftrightarrow> results \<noteq> []
         \<and> those (map (RegExp h)
                (sequelPatternSources (toLowerCase (trim (toLowerCase q))))) = None"
proof -
  let ?fails = "those (map (RegExp h)
                (sequelPatternSources (toLowerCase (trim (toLowerCase q))))) = None"
  have calc: "(\<exists>e. calculateRelevanceScore h m q = Inl e) \<longleftrightarrow> ?fails" for m
    by (auto simp: calculateRelevanceScore_def detectFranchiseBoost_def Let_def
        split: option.splits sum.splits)
  have score: "(\<exists>e. scoreResult h now q im = Inl e) \<longleftrightarrow> ?fails" for im
    using calc [of "snd im"] by (auto simp: scoreResult_def split: sum.splits)
  show ?thesis
  proof (cases "results = []")
    case True
    then show ?thesis by (simp add: processSearchResults_def)
  next
    case False
    then obtain m ms where ms: "results = m # ms" by (cases results) auto
    show ?thesis
    proof (cases ?fails)
      case True
      then obtain e where "scoreResult h now q (0, m) = Inl e" using score by blast
      then have "\<exists>e. processSearchResults h now results q = Inl e"
        by (simp add: processSearchResults_def scoredResults_def ms)
      then show ?thesis using True False by simp
    next
      case False
      then have "\<forall>x\<in>set (enumerate 0 results). \<exists>y. scoreResult h now q x = Inr y"
        using score by (metis sum.exhaust_sel sum.collapse(1))
      then obtain ys where "scoredResults h now results q = Inr ys"
        unfolding scoredResults_def using collect_map_total by blast
      then have "\<exists>out. processSearchResults h now results q = Inr out"
        by (simp add: processSearchResults_def)
      then show ?thesis using False by auto
    qed
  qed
qed

text \<open>
  Claim C1. Every result in the list \<^verbatim>\<open>processSearchResults\<close> returns has a relevance
  score of at least 10. The returned list is a rearrangement of the scored results
  that pass the filter, each with the relevance score \<^verbatim>\<open>calculateRelevanceScore\<close> gave
  its item (base score plus franchise boost): the grouping pass changes no score and
  brings no discarded result back.
\<close>

theorem processSearchResults_relevance_filter:
  assumes "processSearchResults h now results q = Inr out"
  shows "\<exists>scored. scoredResults h now results q = Inr scored
           \<and> map item scored = results
           \<and> (\<forall>r\<in>set scored. calculateRelevanceScore h (item r) q = Inr (relevanceScore r))
           \<and> mset out = mset (filter (\<lambda>r. 10 \<le> relevanceScore r) scored)
           \<and> (\<forall>r\<in>set out. 10 \<le> relevanceScore r)"
proof -
  obtain scored where sc: "scoredResults h now results q = Inr scored"
    and out: "out = groupFranchiseResults (filteredResults scored) q"
    using processSearchResults_Inr [OF assms] by blast
  have m: "mset out = mset (filter (\<lambda>r. 10 \<le> relevanceScore r) scored)"
    by (simp add: out mset_groupFranchiseResults mset_filteredResults)
  then have "set out = set (filter (\<lambda>r. 10 \<le> relevanceScore r) scored)"
    by (rule mset_eq_setD)
  then have "\<forall>r\<in>set out. 10 \<le> relevanceScore r" by simp
  then show ?thesis using sc m scoredResults_Inr [OF sc] by blast
qed

lemma ranking_cars_and_zorro:
  "processSearchResults jsHost clock2026
     [catalogItem ''Zorro'' 1998, catalogItem ''Cars'' 2020, catalogItem ''Cars 2'' 2011] ''cars''
   = Inr [\<lparr> item = catalogItem ''Cars 2'' 2011, relevanceScore = 90, secondaryScore = 29 / 2,
            originalIndex = 2 \<rparr>,
          \<lparr> item = catalogItem ''Cars'' 2020, relevanceScore = 100, secondaryScore = 19,
            originalIndex = 1 \<rparr>]"
  by code_simp

theorem processSearchResults_relevance_filter_witness:
  "\<exists>out. processSearchResults jsHost clock2026
            [catalogItem ''Zorro'' 1998, catalogItem ''Cars'' 2020, catalogItem ''Cars 2'' 2011]
            ''cars'' = Inr out
         \<and> length out = 2 \<and> list_all (\<lambda>r. 10 \<le> relevanceScore r) out"
proof -
  let ?out = "[\<lparr> item = catalogItem ''Cars 2'' 2011, relevanceScore = 90, secondaryScore = 29 / 2,
                  originalIndex = 2 \<rparr>,
               \<lparr> item = catalogItem ''Cars'' 2020, relevanceScore = 100, secondaryScore = 19,
                  originalIndex = 1 \<rparr>]"
  have "\<forall>r\<in>set ?out. 10 \<le> relevanceScore r"
    using processSearchResults_relevance_filter [OF ranking_cars_and_zorro]
    by (elim exE conjE)
  then have "list_all (\<lambda>r. 10 \<le> relevanceScore r) ?out" by (simp only: list_all_iff)
  then show ?thesis using ranking_cars_and_zorro by (intro exI [of _ ?out]) simp
qed





text \<open>
  Claim C3 fails on the code. For the name \<open>cars 2\<close> and the term \<open>cars\<close> the five
  pattern sources are \<open>carss+d+\<close>, \<open>carss+ii+\<close>, \<open>carss*:s*\<close>, \<open>carss*-s*\<close> and
  \<open>cars.*s+(film|movie)\<close>; none matches, the boost is 0 and the relevance score stays
  at the base score 90.
\<close>

theorem detectFranchiseBoost_misses_numbered_sequel:
  "sequelPatternSources ''cars''
     = [''carss+d+'', ''carss+ii+'', ''carss*:s*'', ''carss*-s*'', ''cars.*s+(film|movie)'']
   \<and> detectFranchiseBoost jsHost ''cars 2'' ''cars'' = Inr 0
   \<and> baseScore jsHost (catalogItem ''Cars 2'' 2011) ''cars'' = 90
   \<and> calculateRelevanceScore jsHost (catalogItem ''Cars 2'' 2011) ''cars'' = Inr 90"
  by code_simp

text \<open>
  What the boost does on the code: it is 0 or 15 and is added to the base score
  without a cap. It is given for a colon or a dash directly after the term, and for
  the letters the patterns ask for in place of white space and digits; a space and a
  number, roman numerals, a spaced dash or the words \<open>film\<close> and \<open>movie\<close> after the
  term do not give it.
\<close>

lemma calculateRelevanceScore_additive:
  assumes "detectFranchiseBoost h (movieTitle m) (trim (toLowerCase q)) = Inr b"
  shows "(b = 0 \<or> b = 15) \<and> calculateRelevanceScore h m q = Inr (baseScore h m q + b)"
  using assms
  by (auto simp: calculateRelevanceScore_def detectFranchiseBoost_def Let_def
      split: option.splits if_splits)

lemma detectFranchiseBoost_examples:
  "detectFranchiseBoost jsHost ''cars: the movie'' ''cars'' = Inr 15"
  "detectFranchiseBoost jsHost ''cars-toons'' ''cars'' = Inr 15"
  "detectFranchiseBoost jsHost ''carssd'' ''cars'' = Inr 15"
  "detectFranchiseBoost jsHost ''cars 3'' ''cars'' = Inr 0"
  "detectFranchiseBoost jsHost ''cars ii'' ''cars'' = Inr 0"
  "detectFranchiseBoost jsHost ''cars - the game'' ''cars'' = Inr 0"
  "detectFranchiseBoost jsHost ''cars film'' ''cars'' = Inr 0"
  "detectFranchiseBoost jsHost ''cars movie'' ''cars'' = Inr 0"
  by code_simp+





subsection \<open>A list with one franchise key\<close>

lemma distribute_keyed:
  "k \<noteq> [] \<Longrightarrow> franchiseKey q r = Some k \<Longrightarrow> distribute q (gs, sa) r = (pushToGroup k r gs, sa)"
  by (simp add: distribute_def)

lemma distribute_unkeyed:
  "franchiseKey q r = None \<Longrightarrow> distribute q (gs, sa) r = (gs, sa @ [r])"
  by (simp add: distribute_def)

lemma foldl_distribute_one_group:
  assumes k: "k \<noteq> []"
    and keys: "\<forall>r\<in>set rs. franchiseKey q r = Some k \<or> franchiseKey q r = None"
  shows "foldl (distribute q) ([(k, xs)], sa) rs
           = ([(k, xs @ filter (keyedBy q k) rs)], sa @ filter (\<lambda>r. \<not> keyedBy q k r) rs)"
  using keys
proof (induction rs arbitrary: xs sa)
  case Nil
  then show ?case by simp
next
  case (Cons r rs)
  then have rest: "\<forall>r\<in>set rs. franchiseKey q r = Some k \<or> franchiseKey q r = None" by simp
  show ?case
  proof (cases "franchiseKey q r = Some k")
    case True
    then show ?thesis
      using Cons.IH [OF rest, of "xs @ [r]" sa] k by (simp add: distribute_keyed keyedBy_def)
  next
    case False
    then have "franchiseKey q r = None" using Cons.prems by simp
    then show ?thesis
      using Cons.IH [OF rest, of xs "sa @ [r]"] by (simp add: distribute_unkeyed keyedBy_def)
  qed
qed

lemma foldl_distribute_no_group:
  assumes k: "k \<noteq> []"
    and keys: "\<forall>r\<in>set rs. franchiseKey q r = Some k \<or> franchiseKey q r = None"
  shows "foldl (distribute q) ([], sa) rs
           = (if filter (keyedBy q k) rs = [] then [] else [(k, filter (keyedBy q k) rs)],
              sa @ filter (\<lambda>r. \<not> keyedBy q k r) rs)"
  using keys
proof (induction rs arbitrary: sa)
  case Nil
  then show ?case by simp
next
  case (Cons r rs)
  then have rest: "\<forall>r\<in>set rs. franchiseKey q r = Some k \<or> franchiseKey q r = None" by simp
  show ?case
  proof (cases "franchiseKey q r = Some k")
    case True
    then show ?thesis
      using foldl_distribute_one_group [OF k rest, of "[r]" sa] k
      by (simp add: distribute_keyed keyedBy_def)
  next
    case False
    then have "franchiseKey q r = None" using Cons.prems by simp
    then show ?thesis
      using Cons.IH [OF rest, of "sa @ [r]"] by (simp add: distribute_unkeyed keyedBy_def)
  qed
qed

lemma groupFranchiseResults_one_key:
  assumes k: "k \<noteq> []"
    and keys: "\<forall>r\<in>set rs. franchiseKey (toLowerCase q) r = Some k
                 \<or> franchiseKey (toLowerCase q) r = None"
  shows "groupFranchiseResults rs q
           = sortWith (\<lambda>a b. of_int (yearOrLast a - yearOrLast b))
               (filter (keyedBy (toLowerCase q) k) rs)
             @ filter (\<lambda>r. \<not> keyedBy (toLowerCase q) k r) rs"
  using foldl_distribute_no_group [OF k keys, of "[]"]
  by (simp add: groupFranchiseResults_def Let_def sortWith_def)


subsection \<open>The query \<open>cars\<close>\<close>

lemma calculateRelevanceScore_by_name:
  assumes "name m = Some n" and "n \<noteq> []"
  shows "calculateRelevanceScore h m q = calculateRelevanceScore h (catalogItem n 0) q"
proof -
  have "movieTitle m = movieTitle (catalogItem n 0)"
    using assms by (simp add: movieTitle_def nameOrTitle_def catalogItem_def)
  then show ?thesis by (simp add: calculateRelevanceScore_def baseScore_def)
qed

lemma relevance_cars_items:
  "calculateRelevanceScore jsHost (catalogItem ''Cars'' 0) ''cars'' = Inr 100"
  "calculateRelevanceScore jsHost (catalogItem ''Cars 2'' 0) ''cars'' = Inr 90"
  "calculateRelevanceScore jsHost (catalogItem ''Cars 3'' 0) ''cars'' = Inr 90"
  "calculateRelevanceScore jsHost (catalogItem ''Race Cars Weekly'' 0) ''cars'' = Inr 80"
  by code_simp+

lemma relevance_by_name:
  "name m = Some ''Cars'' \<Longrightarrow> calculateRelevanceScore jsHost m ''cars'' = Inr 100"
  "name m = Some ''Cars 2'' \<Longrightarrow> calculateRelevanceScore jsHost m ''cars'' = Inr 90"
  "name m = Some ''Cars 3'' \<Longrightarrow> calculateRelevanceScore jsHost m ''cars'' = Inr 90"
  "name m = Some ''Race Cars Weekly'' \<Longrightarrow> calculateRelevanceScore jsHost m ''cars'' = Inr 80"
  by (simp_all add: calculateRelevanceScore_by_name [of m _ jsHost "''cars''"] relevance_cars_items)

lemma franchiseKey_by_name:
  assumes "name (item r) = Some n" and "n \<noteq> []"
  shows "franchiseKey q r
           = franchiseKey q \<lparr> item = catalogItem n 0, relevanceScore = 0, secondaryScore = 0,
                              originalIndex = 0 \<rparr>"
  using assms by (simp add: franchiseKey_def nameOrTitle_def catalogItem_def)

lemma franchiseKey_cars_items:
  "franchiseKey ''cars'' \<lparr> item = catalogItem ''Cars'' 0, relevanceScore = 0,
      secondaryScore = 0, originalIndex = 0 \<rparr> = Some ''cars''"
  "franchiseKey ''cars'' \<lparr> item = catalogItem ''Cars 2'' 0, relevanceScore = 0,
      secondaryScore = 0, originalIndex = 0 \<rparr> = Some ''cars''"
  "franchiseKey ''cars'' \<lparr> item = catalogItem ''Cars 3'' 0, relevanceScore = 0,
      secondaryScore = 0, originalIndex = 0 \<rparr> = Some ''cars''"
  "franchiseKey ''cars'' \<lparr> item = catalogItem ''Race Cars Weekly'' 0, relevanceScore = 0,
      secondaryScore = 0, originalIndex = 0 \<rparr> = None"
  by code_simp+

lemma franchiseKey_cars_by_name:
  "name (item r) = Some ''Cars'' \<Longrightarrow> franchiseKey ''cars'' r = Some ''cars''"
  "name (item r) = Some ''Cars 2'' \<Longrightarrow> franchiseKey ''cars'' r = Some ''cars''"
  "name (item r) = Some ''Cars 3'' \<Longrightarrow> franchiseKey ''cars'' r = Some ''cars''"
  "name (item r) = Some ''Race Cars Weekly'' \<Longrightarrow> franchiseKey ''cars'' r = None"
  by (simp_all add: franchiseKey_by_name [of r _ "''cars''"] franchiseKey_cars_items)

lemma toLowerCase_cars: "toLowerCase ''cars'' = ''cars''"
  by code_simp

lemma list_of_size3: "size (mset xs) = 3 \<Longrightarrow> \<exists>a b c. xs = [a, b, c]"
  by (cases xs; cases "tl xs"; cases "tl (tl xs)"; cases "tl (tl (tl xs))") auto

lemma list_of_size1: "size (mset xs) = 1 \<Longrightarrow> \<exists>a. xs = [a]"
  by (cases xs; cases "tl xs") auto

text \<open>
  Claim C4. For the query \<open>cars\<close> and four raw items named \<open>Cars\<close>, \<open>Cars 2\<close>, \<open>Cars 3\<close>
  and \<open>Race Cars Weekly\<close>, in any order and each with a known year, the ranked output
  has the three items whose names start with \<open>cars\<close> first, in ascending order of
  year, and \<open>Race Cars Weekly\<close> last.
\<close>

theorem cars_franchise_group:
  assumes names: "mset (map name results)
                    = {#Some ''Cars'', Some ''Cars 2'', Some ''Cars 3'', Some ''Race Cars Weekly''#}"
    and years: "\<forall>m\<in>set results. \<exists>y. year m = Some y \<and> y \<noteq> 0"
  shows "\<exists>a b c d ya yb yc.
           processSearchResults jsHost now results ''cars'' = Inr [a, b, c, d]
           \<and> mset (map item [a, b, c, d]) = mset results
           \<and> mset (map (\<lambda>r. name (item r)) [a, b, c])
               = {#Some ''Cars'', Some ''Cars 2'', Some ''Cars 3''#}
           \<and> year (item a) = Some ya \<and> year (item b) = Some yb \<and> year (item c) = Some yc
           \<and> ya \<le> yb \<and> yb \<le> yc
           \<and> name (item d) = Some ''Race Cars Weekly''"
proof -
  let ?rcw = "Some ''Race Cars Weekly''"
  let ?yc = "\<lambda>a b. rat_of_int (yearOrLast a - yearOrLast b)"
  have nonempty: "results \<noteq> []" using names by auto
  have name_cases: "name m = Some ''Cars'' \<or> name m = Some ''Cars 2'' \<or> name m = Some ''Cars 3''
      \<or> name m = ?rcw" if "m \<in> set results" for m
  proof -
    have "name m \<in># mset (map name results)" using that by simp
    then show ?thesis unfolding names by auto
  qed
  have rel: "\<exists>v. calculateRelevanceScore jsHost m ''cars'' = Inr v \<and> 10 \<le> v"
    if "m \<in> set results" for m
    using name_cases [OF that] by (auto simp: relevance_by_name)
  have "\<forall>x\<in>set (enumerate 0 results). \<exists>y. scoreResult jsHost now ''cars'' x = Inr y"
  proof
    fix x assume "x \<in> set (enumerate 0 results)"
    then have "snd x \<in> set results"
      using nth_mem [of "fst x" results] by (auto simp: in_set_enumerate_eq)
    then obtain v where "calculateRelevanceScore jsHost (snd x) ''cars'' = Inr v"
      using rel by blast
    then show "\<exists>y. scoreResult jsHost now ''cars'' x = Inr y" by (simp add: scoreResult_def)
  qed
  then obtain scored where sc: "scoredResults jsHost now results ''cars'' = Inr scored"
    unfolding scoredResults_def using collect_map_total by blast
  have items: "map item scored = results" by (rule scoredResults_Inr(1) [OF sc])
  have item_in: "item r \<in> set results" if "r \<in> set scored" for r
    using that items by (metis image_eqI list.set_map)
  have keep: "10 \<le> relevanceScore r" if "r \<in> set scored" for r
    using rel [OF item_in [OF that]] scoredResults_Inr(2) [OF sc] that by auto
  define L where "L = filteredResults scored"
  have mL: "mset L = mset scored"
    using keep by (simp add: L_def mset_filteredResults)
  have out: "processSearchResults jsHost now results ''cars''
               = Inr (groupFranchiseResults L ''cars'')"
    using nonempty sc by (simp add: processSearchResults_def L_def)
  have setL: "set L = set scored" using mL by (rule mset_eq_setD)
  have namesL: "image_mset (\<lambda>r. name (item r)) (mset L)
                  = {#Some ''Cars'', Some ''Cars 2'', Some ''Cars 3'', ?rcw#}"
  proof -
    have "image_mset (\<lambda>r. name (item r)) (mset L) = mset (map name (map item scored))"
      by (simp add: mL comp_def)
    then show ?thesis using names by (simp add: items)
  qed
  have key: "franchiseKey ''cars'' r = (if name (item r) = ?rcw then None else Some ''cars'')"
    if "r \<in> set L" for r
  proof -
    have "r \<in> set scored" using that setL by simp
    then have "item r \<in> set results" by (rule item_in)
    then show ?thesis
      using name_cases [of "item r"] by (auto simp: franchiseKey_cars_by_name)
  qed
  define K where "K = filter (keyedBy ''cars'' ''cars'') L"
  define D where "D = filter (\<lambda>r. \<not> keyedBy ''cars'' ''cars'' r) L"
  have grouped: "groupFranchiseResults L ''cars'' = sortWith ?yc K @ D"
    unfolding K_def D_def
    using groupFranchiseResults_one_key [of "''cars''" L "''cars''"] key
    by (simp add: toLowerCase_cars)
  have K_eq: "K = filter (\<lambda>r. name (item r) \<noteq> ?rcw) L"
    unfolding K_def by (rule filter_cong) (auto simp: keyedBy_def key)
  have D_eq: "D = filter (\<lambda>r. name (item r) = ?rcw) L"
    unfolding D_def by (rule filter_cong) (auto simp: keyedBy_def key)
  have namesK: "image_mset (\<lambda>r. name (item r)) (mset K)
                  = {#Some ''Cars'', Some ''Cars 2'', Some ''Cars 3''#}"
    using namesL by (simp add: K_eq image_mset_filter_mset_swap [where P = "\<lambda>n. n \<noteq> ?rcw"])
  have namesD: "image_mset (\<lambda>r. name (item r)) (mset D) = {#?rcw#}"
    using namesL by (simp add: D_eq image_mset_filter_mset_swap [where P = "\<lambda>n. n = ?rcw"])
  define S where "S = sortWith ?yc K"
  have mS: "mset S = mset K" by (simp add: S_def mset_sortWith)
  have "size (mset S) = 3"
    using arg_cong [OF namesK, of size] by (simp add: mS)
  then obtain a b c where S: "S = [a, b, c]" using list_of_size3 by blast
  have "size (mset D) = 1"
    using arg_cong [OF namesD, of size] by simp
  then obtain d where D: "D = [d]" using list_of_size1 by blast
  have d_name: "name (item d) = ?rcw" using namesD by (simp add: D)
  have sortedS: "sorted_wrt (\<lambda>a b. ?yc a b \<le> 0) S"
    unfolding S_def by (rule sorted_sortWith) auto
  have in_results: "item r \<in> set results" if "r \<in> set S" for r
  proof -
    have "r \<in> set K" using that mS by (metis set_mset_mset)
    then have "r \<in> set L" by (simp add: K_def)
    then show ?thesis using setL item_in by simp
  qed
  have known: "\<exists>y. year (item r) = Some y \<and> yearOrLast r = y" if "r \<in> set S" for r
    using years in_results [OF that] by (fastforce simp: yearOrLast_def)
  obtain ya where ya: "year (item a) = Some ya" "yearOrLast a = ya" using known [of a] S by auto
  obtain yb where yb: "year (item b) = Some yb" "yearOrLast b = yb" using known [of b] S by auto
  obtain yc where yc: "year (item c) = Some yc" "yearOrLast c = yc" using known [of c] S by auto
  have order: "ya \<le> yb \<and> yb \<le> yc" using sortedS ya yb yc by (simp add: S)
  have final: "groupFranchiseResults L ''cars'' = [a, b, c, d]"
    using grouped S D by (simp add: S_def)
  have perm: "mset (map item [a, b, c, d]) = mset results"
  proof -
    have "mset (map item (groupFranchiseResults L ''cars'')) = mset (map item scored)"
      using mset_groupFranchiseResults [of L "''cars''"] mL by (metis mset_map)
    then show ?thesis by (simp add: final items)
  qed
  have namesS: "mset (map (\<lambda>r. name (item r)) [a, b, c])
                  = {#Some ''Cars'', Some ''Cars 2'', Some ''Cars 3''#}"
    using namesK mS by (metis S mset_map)
  have full: "processSearchResults jsHost now results ''cars'' = Inr [a, b, c, d]"
    using out final by simp
  have "processSearchResults jsHost now results ''cars'' = Inr [a, b, c, d]
           \<and> mset (map item [a, b, c, d]) = mset results
           \<and> mset (map (\<lambda>r. name (item r)) [a, b, c])
               = {#Some ''Cars'', Some ''Cars 2'', Some ''Cars 3''#}
           \<and> year (item a) = Some ya \<and> year (item b) = Some yb \<and> year (item c) = Some yc
           \<and> ya \<le> yb \<and> yb \<le> yc
           \<and> name (item d) = Some ''Race Cars Weekly''"
    using full perm namesS ya(1) yb(1) yc(1) conjunct1 [OF order] conjunct2 [OF order] d_name
    by (intro conjI)
  then show ?thesis by (intro exI)
qed

theorem cars_franchise_group_witness:
  "\<exists>a b c d ya yb yc.
     processSearchResults jsHost clock2026
       [catalogItem ''Race Cars Weekly'' 2001, catalogItem ''Cars 3'' 2017,
        catalogItem ''Cars'' 2006, catalogItem ''Cars 2'' 2011] ''cars'' = Inr [a, b, c, d]
     \<and> mset (map item [a, b, c, d])
         = mset [catalogItem ''Race Cars Weekly'' 2001, catalogItem ''Cars 3'' 2017,
                 catalogItem ''Cars'' 2006, catalogItem ''Cars 2'' 2011]
     \<and> mset (map (\<lambda>r. name (item r)) [a, b, c])
         = {#Some ''Cars'', Some ''Cars 2'', Some ''Cars 3''#}
     \<and> year (item a) = Some ya \<and> year (item b) = Some yb \<and> year (item c) = Some yc
     \<and> ya \<le> yb \<and> yb \<le> yc
     \<and> name (item d) = Some ''Race Cars Weekly''"
proof -
  let ?input = "[catalogItem ''Race Cars Weekly'' 2001, catalogItem ''Cars 3'' 2017,
        catalogItem ''Cars'' 2006, catalogItem ''Cars 2'' 2011]"
  have n: "mset (map name ?input)
             = {#Some ''Cars'', Some ''Cars 2'', Some ''Cars 3'', Some ''Race Cars Weekly''#}"
    by (simp add: catalogItem_def)
  have y: "\<forall>m\<in>set ?input. \<exists>y. year m = Some y \<and> y \<noteq> 0"
    by (simp add: catalogItem_def)
  show ?thesis by (rule cars_franchise_group [OF n y])
qed


section \<open>Properties of the stream resolver and the playback launcher\<close>

subsection \<open>Hash extraction\<close>

lemma findStr_None: "findStr s p = None \<longleftrightarrow> \<not> includesStr s p"
  by (induction s) auto

lemma findStr_first:
  assumes "startsWith (drop i s) p" and "i \<le> length s"
    and "\<forall>j<i. \<not> startsWith (drop j s) p"
  shows "findStr s p = Some i"
  using assms
proof (induction s arbitrary: i)
  case Nil
  then show ?case by (cases p) auto
next
  case (Cons c cs)
  show ?case
  proof (cases i)
    case 0
    then show ?thesis using Cons.prems by simp
  next
    case (Suc n)
    have no0: "\<not> startsWith (c # cs) p" using Cons.prems(3) Suc by force
    have "\<forall>j<n. \<not> startsWith (drop j cs) p"
    proof (intro allI impI)
      fix j assume "j < n"
      then have "Suc j < i" using Suc by simp
      then have "\<not> startsWith (drop (Suc j) (c # cs)) p" using Cons.prems(3) by blast
      then show "\<not> startsWith (drop j cs) p" by simp
    qed
    then have "findStr cs p = Some n" using Cons.IH [of n] Cons.prems Suc by simp
    then show ?thesis using no0 Suc by simp
  qed
qed

lemma startsWith_self_append: "startsWith (p @ t) p"
  by (induction p) auto

lemma findChar_first: "d \<notin> set h \<Longrightarrow> findChar (h @ d # t) d = Some (length h)"
  by (induction h) auto

lemma findChar_absent: "d \<notin> set h \<Longrightarrow> findChar h d = None"
  by (induction h) auto

text \<open>
  Claim C6. For a descriptor without the marker \<open>btih:\<close> the extraction fails with an
  error. For a descriptor \<open>d\<close> whose first occurrence of the marker ends where \<open>h\<close>
  begins, \<open>h\<close> being free of \<open>&\<close> and followed by \<open>&\<close> or by the end of \<open>d\<close>, it
  returns \<open>h\<close> in lower case. For \<open>swarm:?xt=urn:btih:ABCDEF0123&dn=Movie\<close> it returns
  \<open>abcdef0123\<close>.
\<close>

theorem extract_torrent_hash_spec:
  "(\<not> includesStr d ''btih:''
      \<longrightarrow> extract_torrent_hash d = Inl ''Could not find btih: in magnet link'')
   \<and> (d = pre @ ''btih:'' @ h @ rest
        \<and> (\<forall>j<length pre. \<not> startsWith (drop j d) ''btih:'')
        \<and> CHR ''&'' \<notin> set h \<and> (rest = [] \<or> (\<exists>t. rest = CHR ''&'' # t))
      \<longrightarrow> extract_torrent_hash d = Inr (toLowerCase h))
   \<and> extract_torrent_hash ''swarm:?xt=urn:btih:ABCDEF0123&dn=Movie'' = Inr ''abcdef0123''"
proof (intro conjI impI)
  assume "\<not> includesStr d ''btih:''"
  then have "findStr d ''btih:'' = None" by (simp add: findStr_None)
  then show "extract_torrent_hash d = Inl ''Could not find btih: in magnet link''"
    by (simp add: extract_torrent_hash_def)
next
  assume a: "d = pre @ ''btih:'' @ h @ rest
        \<and> (\<forall>j<length pre. \<not> startsWith (drop j d) ''btih:'')
        \<and> CHR ''&'' \<notin> set h \<and> (rest = [] \<or> (\<exists>t. rest = CHR ''&'' # t))"
  then have d: "d = pre @ ''btih:'' @ h @ rest" by simp
  have "startsWith (drop (length pre) d) ''btih:''"
    using startsWith_self_append [of "''btih:''" "h @ rest"] by (simp add: d)
  then have f: "findStr d ''btih:'' = Some (length pre)"
    using a by (intro findStr_first) (simp_all add: d)
  have dr: "drop (length pre + 5) d = h @ rest" by (simp add: d)
  have "findChar (h @ rest) CHR ''&'' = (if rest = [] then None else Some (length h))"
    using a findChar_first [of "CHR ''&''" h] findChar_absent [of "CHR ''&''" h] by auto
  then show "extract_torrent_hash d = Inr (toLowerCase h)"
    using f dr by (auto simp: extract_torrent_hash_def Let_def d)
next
  show "extract_torrent_hash ''swarm:?xt=urn:btih:ABCDEF0123&dn=Movie'' = Inr ''abcdef0123''"
    by code_simp
qed

theorem extract_torrent_hash_spec_witness:
  "\<not> includesStr ''swarm:?xt=urn:ABCDEF0123'' ''btih:''
   \<and> extract_torrent_hash ''swarm:?xt=urn:ABCDEF0123''
       = Inl ''Could not find btih: in magnet link''
   \<and> extract_torrent_hash (''swarm:?xt=urn:'' @ ''btih:'' @ ''ABCDEF0123'' @ ''&dn=Movie'')
       = Inr (toLowerCase ''ABCDEF0123'')"
proof -
  let ?d = "''swarm:?xt=urn:'' @ ''btih:'' @ ''ABCDEF0123'' @ ''&dn=Movie''"
  have n: "\<not> includesStr ''swarm:?xt=urn:ABCDEF0123'' ''btih:''" by code_simp
  have "\<forall>j\<in>set [0..<14]. \<not> startsWith (drop j ?d) ''btih:''"
    by code_simp
  then have first: "\<forall>j<length ''swarm:?xt=urn:''. \<not> startsWith (drop j ?d) ''btih:''"
    by simp
  have amp: "CHR ''&'' \<notin> set ''ABCDEF0123''" by simp
  have shape: "?d = ''swarm:?xt=urn:'' @ ''btih:'' @ ''ABCDEF0123'' @ ''&dn=Movie''
        \<and> (\<forall>j<length ''swarm:?xt=urn:''. \<not> startsWith (drop j ?d) ''btih:'')
        \<and> CHR ''&'' \<notin> set ''ABCDEF0123''
        \<and> (''&dn=Movie'' = [] \<or> (\<exists>t. ''&dn=Movie'' = CHR ''&'' # t))"
    using first amp by simp
  have "\<not> includesStr ''swarm:?xt=urn:ABCDEF0123'' ''btih:''
          \<longrightarrow> extract_torrent_hash ''swarm:?xt=urn:ABCDEF0123''
                = Inl ''Could not find btih: in magnet link''"
    using extract_torrent_hash_spec [of "''swarm:?xt=urn:ABCDEF0123''" "[]" "[]" "[]"]
    by (elim conjE)
  then have absent: "extract_torrent_hash ''swarm:?xt=urn:ABCDEF0123''
       = Inl ''Could not find btih: in magnet link''"
    using n by (rule mp)
  have "?d = ''swarm:?xt=urn:'' @ ''btih:'' @ ''ABCDEF0123'' @ ''&dn=Movie''
        \<and> (\<forall>j<length ''swarm:?xt=urn:''. \<not> startsWith (drop j ?d) ''btih:'')
        \<and> CHR ''&'' \<notin> set ''ABCDEF0123''
        \<and> (''&dn=Movie'' = [] \<or> (\<exists>t. ''&dn=Movie'' = CHR ''&'' # t))
      \<longrightarrow> extract_torrent_hash ?d = Inr (toLowerCase ''ABCDEF0123'')"
    using extract_torrent_hash_spec
      [of ?d "''swarm:?xt=urn:''" "''ABCDEF0123''" "''&dn=Movie''"]
    by (elim conjE)
  then have present: "extract_torrent_hash ?d = Inr (toLowerCase ''ABCDEF0123'')"
    using shape by (rule mp)
  show ?thesis using n absent present by (intro conjI)
qed


subsection \<open>The swarm helper is single-flight\<close>

lemma tracked_stop: "tracked s \<Longrightarrow> tracked (snd (stop_stream kill_ok s))"
  by (auto simp: tracked_def stop_stream_def split: option.splits)

lemma stop_stream_Inr:
  "tracked s \<Longrightarrow> stop_stream kill_ok s = (Inr u, s1) \<Longrightarrow> running s1 = {}"
  by (auto simp: tracked_def stop_stream_def split: option.splits if_splits)

lemma tracked_start: "tracked s \<Longrightarrow> tracked (snd (start_stream kill_ok spawn_ok m s))"
proof -
  assume t: "tracked s"
  obtain r s1 where st: "stop_stream kill_ok s = (r, s1)" by (cases "stop_stream kill_ok s")
  have t1: "tracked s1" using tracked_stop [OF t, of kill_ok] st by simp
  show ?thesis
  proof (cases r)
    case (Inl e)
    then show ?thesis using st t1 by (simp add: start_stream_def)
  next
    case (Inr u)
    then have "running s1 = {}" using stop_stream_Inr [OF t] st by blast
    then show ?thesis using st t1 Inr by (simp add: start_stream_def tracked_def)
  qed
qed

lemma tracked_exits: "tracked s \<Longrightarrow> tracked (helper_exits p s)"
  by (auto simp: tracked_def helper_exits_def)

lemma reachable_tracked: "reachable s \<Longrightarrow> tracked s"
proof (induction rule: reachable.induct)
  case init
  then show ?case by (simp add: tracked_def initial_streamer_def)
next
  case (start s kill_ok spawn_ok magnet_link)
  then show ?case by (simp add: tracked_start)
next
  case (stop s kill_ok)
  then show ?case by (simp add: tracked_stop)
next
  case (exits s p)
  then show ?case by (simp add: tracked_exits)
qed

lemma tracked_card: "tracked s \<Longrightarrow> finite (running s) \<and> card (running s) \<le> 1"
proof -
  assume "tracked s"
  then have sub: "running s \<subseteq> set_option (peerflix_process s)" by (simp add: tracked_def)
  have fin: "finite (set_option (peerflix_process s))" by (cases "peerflix_process s") auto
  have "card (set_option (peerflix_process s)) \<le> 1" by (cases "peerflix_process s") auto
  then show ?thesis using sub fin by (meson card_mono finite_subset le_trans)
qed

text \<open>
  Claim C9. In every reachable state of the streamer at most one helper process is
  alive. When \<^verbatim>\<open>start_stream\<close> is called in a state where a helper \<open>p\<close> of a prior
  session is alive, the events it adds are a kill of \<open>p\<close> and, after it, the spawn of
  the new helper, or a beginning of this sequence when a step fails: no helper is
  spawned before \<open>p\<close> is killed. When the call succeeds, both events have taken
  place and the new helper is the only one alive.
\<close>

theorem start_stream_single_flight:
  assumes "reachable s"
  shows "finite (running s) \<and> card (running s) \<le> 1
     \<and> (p \<in> running s \<and> start_stream kill_ok spawn_ok magnet_link s = (r, s')
          \<longrightarrow> (events s' = events s \<or> events s' = events s @ [Killed p]
                 \<or> events s' = events s @ [Killed p, Spawned (next_pid s)])
              \<and> card (running s') \<le> 1
              \<and> (r = Inr url
                   \<longrightarrow> events s' = events s @ [Killed p, Spawned (next_pid s)]
                       \<and> running s' = {next_pid s} \<and> p \<notin> running s'))"
proof -
  have t: "tracked s" using assms by (rule reachable_tracked)
  have "(events s' = events s \<or> events s' = events s @ [Killed p]
                 \<or> events s' = events s @ [Killed p, Spawned (next_pid s)])
              \<and> card (running s') \<le> 1
              \<and> (r = Inr url
                   \<longrightarrow> events s' = events s @ [Killed p, Spawned (next_pid s)]
                       \<and> running s' = {next_pid s} \<and> p \<notin> running s')"
    if p: "p \<in> running s" and st: "start_stream kill_ok spawn_ok magnet_link s = (r, s')"
  proof -
    have h: "peerflix_process s = Some p"
      using t p by (cases "peerflix_process s") (auto simp: tracked_def)
    have fresh: "p < next_pid s" using t h by (simp add: tracked_def)
    have gone: "running s - {p} = {}" using t h by (auto simp: tracked_def)
    have "reachable s'"
      using reachable.start [OF assms, of kill_ok spawn_ok magnet_link] st by simp
    then have one: "card (running s') \<le> 1"
      using tracked_card [OF reachable_tracked] by blast
    show ?thesis
    proof (cases kill_ok)
      case False
      then have "s' = s \<and> r = Inl ''Failed to stop stream''"
        using st h by (auto simp: start_stream_def stop_stream_def)
      then show ?thesis using one by simp
    next
      case killed: True
      show ?thesis
      proof (cases spawn_ok)
        case False
        then have "s' = s\<lparr> peerflix_process := None, running := running s - {p},
                            events := events s @ [Killed p] \<rparr>
                   \<and> r = Inl ''Failed to start peerflix''"
          using st h killed by (auto simp: start_stream_def stop_stream_def)
        then show ?thesis using one by simp
      next
        case True
        then have "s' = s\<lparr> peerflix_process := Some (next_pid s),
                          running := insert (next_pid s) (running s - {p}),
                          next_pid := Suc (next_pid s),
                          events := events s @ [Killed p, Spawned (next_pid s)] \<rparr>"
          using st h killed by (auto simp: start_stream_def stop_stream_def)
        then show ?thesis using one gone fresh by simp
      qed
    qed
  qed
  then show ?thesis using tracked_card [OF t] by blast
qed

lemma first_session:
  "start_stream True True ''magnet:?xt=urn:btih:AA'' initial_streamer
     = (Inr ''http://127.0.0.1:8888'',
        \<lparr> peerflix_process = Some 0, running = {0}, next_pid = 1, events = [Spawned 0] \<rparr>)"
  by (simp add: start_stream_def stop_stream_def initial_streamer_def)

lemma second_session:
  "start_stream True True ''magnet:?xt=urn:btih:BB''
       \<lparr> peerflix_process = Some 0, running = {0}, next_pid = 1, events = [Spawned 0] \<rparr>
     = (Inr ''http://127.0.0.1:8888'',
        \<lparr> peerflix_process = Some 1, running = {1}, next_pid = 2,
          events = [Spawned 0, Killed 0, Spawned 1] \<rparr>)"
  by (simp add: start_stream_def stop_stream_def)

theorem start_stream_single_flight_witness:
  "reachable \<lparr> peerflix_process = Some 0, running = {0}, next_pid = 1, events = [Spawned 0] \<rparr>
   \<and> start_stream True True ''magnet:?xt=urn:btih:BB''
       \<lparr> peerflix_process = Some 0, running = {0}, next_pid = 1, events = [Spawned 0] \<rparr>
     = (Inr ''http://127.0.0.1:8888'',
        \<lparr> peerflix_process = Some 1, running = {1}, next_pid = 2,
          events = [Spawned 0, Killed 0, Spawned 1] \<rparr>)
   \<and> events \<lparr> peerflix_process = Some 1, running = {1}, next_pid = 2,
          events = [Spawned 0, Killed 0, Spawned 1] \<rparr> = [Spawned 0] @ [Killed 0, Spawned 1]"
proof -
  let ?s1 = "\<lparr> peerflix_process = Some 0, running = {0::nat}, next_pid = 1, events = [Spawned 0] \<rparr>"
  let ?s2 = "\<lparr> peerflix_process = Some 1, running = {1::nat}, next_pid = 2,
          events = [Spawned 0, Killed 0, Spawned 1] \<rparr>"
  have "reachable (snd (start_stream True True ''magnet:?xt=urn:btih:AA'' initial_streamer))"
    by (rule reachable.start) (rule reachable.init)
  then have r: "reachable ?s1" by (simp only: first_session snd_conv)
  have run: "0 \<in> running ?s1 \<and> start_stream True True ''magnet:?xt=urn:btih:BB'' ?s1
            = (Inr ''http://127.0.0.1:8888'', ?s2)"
    using second_session by simp
  have "0 \<in> running ?s1 \<and> start_stream True True ''magnet:?xt=urn:btih:BB'' ?s1
            = (Inr ''http://127.0.0.1:8888'', ?s2)
          \<longrightarrow> (events ?s2 = events ?s1 \<or> events ?s2 = events ?s1 @ [Killed 0]
                 \<or> events ?s2 = events ?s1 @ [Killed 0, Spawned (next_pid ?s1)])
              \<and> card (running ?s2) \<le> 1
              \<and> ((Inr ''http://127.0.0.1:8888'' :: string + string) = Inr ''http://127.0.0.1:8888''
                   \<longrightarrow> events ?s2 = events ?s1 @ [Killed 0, Spawned (next_pid ?s1)]
                       \<and> running ?s2 = {next_pid ?s1} \<and> 0 \<notin> running ?s2)"
    using start_stream_single_flight [OF r, of 0 True True "''magnet:?xt=urn:btih:BB''"
        "Inr ''http://127.0.0.1:8888''" ?s2 "''http://127.0.0.1:8888''"]
    by (elim conjE)
  then have "(events ?s2 = events ?s1 \<or> events ?s2 = events ?s1 @ [Killed 0]
                 \<or> events ?s2 = events ?s1 @ [Killed 0, Spawned (next_pid ?s1)])
              \<and> card (running ?s2) \<le> 1
              \<and> ((Inr ''http://127.0.0.1:8888'' :: string + string) = Inr ''http://127.0.0.1:8888''
                   \<longrightarrow> events ?s2 = events ?s1 @ [Killed 0, Spawned (next_pid ?s1)]
                       \<and> running ?s2 = {next_pid ?s1} \<and> 0 \<notin> running ?s2)"
    using run by (rule mp)
  then have "events ?s2 = [Spawned 0] @ [Killed 0, Spawned 1]" by simp
  then show ?thesis using r second_session by (intro conjI)
qed


subsection \<open>The fallback of the resolution\<close>

lemma find_video_none:
  "\<not> has_video_file listing \<Longrightarrow> \<exists>e. find_video_file_in_hash_dir listing = Inl e"
proof (cases listing)
  case None
  then show ?thesis by (simp add: find_video_file_in_hash_dir_def)
next
  case (Some entries)
  assume "\<not> has_video_file listing"
  then have "find is_video_file entries = None"
    using Some by (auto simp: has_video_file_def list_ex_iff find_None_iff)
  then show ?thesis using Some by (simp add: find_video_file_in_hash_dir_def)
qed

lemma poll_hash_dir_none:
  "\<forall>j<n. \<not> has_video_file (dir_at (k + j)) \<Longrightarrow> poll_hash_dir dir_at n k = None"
proof (induction n arbitrary: k)
  case 0
  then show ?case by simp
next
  case (Suc n)
  have "\<not> has_video_file (dir_at k)" using Suc.prems by force
  then obtain e where e: "find_video_file_in_hash_dir (dir_at k) = Inl e"
    using find_video_none by blast
  have "\<forall>j<n. \<not> has_video_file (dir_at (Suc k + j))"
  proof (intro allI impI)
    fix j assume "j < n"
    then have "\<not> has_video_file (dir_at (k + Suc j))" using Suc.prems by blast
    then show "\<not> has_video_file (dir_at (Suc k + j))" by simp
  qed
  then have "poll_hash_dir dir_at n (Suc k) = None" by (rule Suc.IH)
  then show ?case using e by simp
qed

text \<open>
  Claim C7. When the hash of a swarm descriptor has been extracted and the helper
  started, and at none of the searches of the bounded wait the hash directory holds a
  file with one of the video extensions, the resolution succeeds: it returns the
  helper's own endpoint \<open>http://127.0.0.1:8888\<close> as a degraded result, not an error.
\<close>

theorem resolve_degraded_fallback:
  assumes "extract_torrent_hash magnet_link = Inr hash"
    and "start_stream (can_kill env) (can_spawn env) magnet_link s = (Inr local_url, s')"
    and "\<forall>k<max_attempts env. \<not> has_video_file (hash_dir env hash k)"
  shows "resolve env (Swarm magnet_link) s
           = (Inr \<lparr> kind = RemoteEndpoint ''http://127.0.0.1:8888'', degraded = True \<rparr>, s')
         \<and> local_url = ''http://127.0.0.1:8888''"
proof -
  have "poll_hash_dir (hash_dir env hash) (max_attempts env) 0 = None"
    using assms(3) by (intro poll_hash_dir_none) simp
  moreover have "local_url = ''http://127.0.0.1:8888''"
    using assms(2) by (auto simp: start_stream_def split: prod.splits sum.splits if_splits)
  ultimately show ?thesis using assms(1,2) by (simp add: resolve_def)
qed

theorem resolve_degraded_fallback_witness:
  "fst (resolve
     \<lparr> can_kill = True, can_spawn = True, max_attempts = 3,
       hash_dir = (\<lambda>hash k. if k = 0 then None
                     else Some [Some \<lparr> entry_path = ''/tmp/torrent-stream/aa/notes.txt'',
                                        is_file = True \<rparr>]) \<rparr>
     (Swarm ''magnet:?xt=urn:btih:AA'') initial_streamer)
   = Inr \<lparr> kind = RemoteEndpoint ''http://127.0.0.1:8888'', degraded = True \<rparr>"
proof -
  let ?env = "\<lparr> can_kill = True, can_spawn = True, max_attempts = 3,
       hash_dir = (\<lambda>hash k. if k = 0 then None
                     else Some [Some \<lparr> entry_path = ''/tmp/torrent-stream/aa/notes.txt'',
                                        is_file = True \<rparr>]) \<rparr>"
  have h: "extract_torrent_hash ''magnet:?xt=urn:btih:AA'' = Inr ''aa''" by code_simp
  have st: "start_stream (can_kill ?env) (can_spawn ?env) ''magnet:?xt=urn:btih:AA'' initial_streamer
     = (Inr ''http://127.0.0.1:8888'',
        \<lparr> peerflix_process = Some 0, running = {0}, next_pid = 1, events = [Spawned 0] \<rparr>)"
    using first_session by simp
  have plain: "\<not> is_video_file (Some \<lparr> entry_path = ''/tmp/torrent-stream/aa/notes.txt'',
                                        is_file = True \<rparr>)"
    by code_simp
  have none: "\<forall>k<max_attempts ?env. \<not> has_video_file (hash_dir ?env ''aa'' k)"
    using plain by (simp add: has_video_file_def)
  show ?thesis using resolve_degraded_fallback [OF h st none] by simp
qed


subsection \<open>The fallback chain of the launcher\<close>

lemma launch_Inl:
  "fst (launch_external_player spawn ps) = Inl e
     \<longleftrightarrow> e = no_player_message \<and> (\<forall>p\<in>set ps. \<not> spawn p)"
  by (induction ps) (auto simp: Let_def)

lemma launch_Inr:
  "fst (launch_external_player spawn ps) = Inr p \<Longrightarrow>
     \<exists>pre post. ps = pre @ p # post \<and> (\<forall>x\<in>set pre. \<not> spawn x) \<and> spawn p
        \<and> snd (launch_external_player spawn ps) = map SpawnFailed pre @ [SpawnOk p]"
proof (induction ps)
  case Nil
  then show ?case by simp
next
  case (Cons a ps)
  show ?case
  proof (cases "spawn a")
    case True
    then have "p = a" using Cons.prems by simp
    then have "a # ps = [] @ p # ps \<and> (\<forall>x\<in>set []. \<not> spawn x) \<and> spawn p
        \<and> snd (launch_external_player spawn (a # ps)) = map SpawnFailed [] @ [SpawnOk p]"
      using True by simp
    then show ?thesis by blast
  next
    case False
    then have "fst (launch_external_player spawn ps) = Inr p"
      using Cons.prems by (simp add: Let_def)
    then obtain pre post where pp: "ps = pre @ p # post" "\<forall>x\<in>set pre. \<not> spawn x" "spawn p"
        "snd (launch_external_player spawn ps) = map SpawnFailed pre @ [SpawnOk p]"
      using Cons.IH by blast
    have "a # ps = (a # pre) @ p # post \<and> (\<forall>x\<in>set (a # pre). \<not> spawn x) \<and> spawn p
        \<and> snd (launch_external_player spawn (a # ps)) = map SpawnFailed (a # pre) @ [SpawnOk p]"
      using pp False by (simp add: Let_def)
    then show ?thesis by blast
  qed
qed

lemma launch_all_failed:
  "\<forall>p\<in>set ps. \<not> spawn p \<Longrightarrow> snd (launch_external_player spawn ps) = map SpawnFailed ps"
  by (induction ps) (auto simp: Let_def)

lemma launch_not_awaited: "Awaited q \<notin> set (snd (launch_external_player spawn ps))"
  by (induction ps) (auto simp: Let_def)

text \<open>
  Claim C8. A launch returns the error \<open>No video player found\<close> with its advice exactly
  when the spawn of every candidate fails, after it has tried them all in order.
  Otherwise it returns a candidate \<open>p\<close>: every candidate listed before \<open>p\<close> was tried,
  in order, and failed, \<open>p\<close> was spawned, no candidate after \<open>p\<close> was tried, and no
  spawned process was waited for.
\<close>

theorem launch_external_player_fallback:
  "(fst (launch_external_player spawn ps) = Inl no_player_message
      \<longleftrightarrow> (\<forall>p\<in>set ps. \<not> spawn p))
   \<and> (fst (launch_external_player spawn ps) = Inr p \<longrightarrow>
        (\<exists>pre post. ps = pre @ p # post \<and> (\<forall>x\<in>set pre. \<not> spawn x) \<and> spawn p
           \<and> snd (launch_external_player spawn ps) = map SpawnFailed pre @ [SpawnOk p]))
   \<and> ((\<exists>p\<in>set ps. spawn p) \<longrightarrow> (\<exists>p. fst (launch_external_player spawn ps) = Inr p))
   \<and> ((\<forall>p\<in>set ps. \<not> spawn p)
        \<longrightarrow> snd (launch_external_player spawn ps) = map SpawnFailed ps)
   \<and> Awaited q \<notin> set (snd (launch_external_player spawn ps))"
proof (intro conjI impI)
  show "fst (launch_external_player spawn ps) = Inl no_player_message
          \<longleftrightarrow> (\<forall>p\<in>set ps. \<not> spawn p)"
    by (simp add: launch_Inl)
next
  assume "fst (launch_external_player spawn ps) = Inr p"
  then show "\<exists>pre post. ps = pre @ p # post \<and> (\<forall>x\<in>set pre. \<not> spawn x) \<and> spawn p
           \<and> snd (launch_external_player spawn ps) = map SpawnFailed pre @ [SpawnOk p]"
    by (rule launch_Inr)
next
  assume "\<exists>p\<in>set ps. spawn p"
  then have "\<forall>e. fst (launch_external_player spawn ps) \<noteq> Inl e" by (simp add: launch_Inl)
  then show "\<exists>p. fst (launch_external_player spawn ps) = Inr p"
    by (cases "fst (launch_external_player spawn ps)") auto
next
  assume "\<forall>p\<in>set ps. \<not> spawn p"
  then show "snd (launch_external_player spawn ps) = map SpawnFailed ps"
    by (rule launch_all_failed)
next
  show "Awaited q \<notin> set (snd (launch_external_player spawn ps))" by (rule launch_not_awaited)
qed

theorem launch_external_player_fallback_witness:
  "launch_external_player (\<lambda>p. binary p = ''vlc'')
       (native_players ''The Godfather (1972)'' ''/tmp/video.mp4''
        @ [\<lparr> binary = ''flatpak'', arguments = [''run'', ''io.mpv.Mpv''] \<rparr>])
     = (Inr (native_players ''The Godfather (1972)'' ''/tmp/video.mp4'' ! 1),
        [SpawnFailed (native_players ''The Godfather (1972)'' ''/tmp/video.mp4'' ! 0),
         SpawnOk (native_players ''The Godfather (1972)'' ''/tmp/video.mp4'' ! 1)])
   \<and> fst (launch_external_player (\<lambda>p. False)
            (native_players ''The Godfather (1972)'' ''/tmp/video.mp4'')) = Inl no_player_message"
proof -
  let ?ps = "native_players ''The Godfather (1972)'' ''/tmp/video.mp4''"
  have a: "launch_external_player (\<lambda>p. binary p = ''vlc'')
       (?ps @ [\<lparr> binary = ''flatpak'', arguments = [''run'', ''io.mpv.Mpv''] \<rparr>])
     = (Inr (?ps ! 1), [SpawnFailed (?ps ! 0), SpawnOk (?ps ! 1)])"
    by (simp add: native_players_def)
  have "fst (launch_external_player (\<lambda>p. False) ?ps) = Inl no_player_message
          \<longleftrightarrow> (\<forall>p\<in>set ?ps. \<not> (\<lambda>p. False) p)"
    using launch_external_player_fallback [of "\<lambda>p. False" ?ps "?ps ! 0" "?ps ! 0"]
    by (elim conjE)
  then have b: "fst (launch_external_player (\<lambda>p. False) ?ps) = Inl no_player_message"
    by simp
  show ?thesis using a b by (intro conjI)
qed

end
